theory Spec2Isabelle
  imports Main "HOL-Library.AList"
begin

section \<open>Python values used by tools/unicode_case_conversion.py\<close>

text \<open>
  The script builds two dictionaries from code points to Python strings and shrinks them
  with seven extraction passes. A code point is an \<open>int\<close>; a Python string is the list of
  its code points; a dictionary is an association list in insertion order, read through
  \<open>map_of\<close>. Every exception the script can raise is a value on the left of a sum.
\<close>

datatype py_error = KeyError | TypeError | IndexError | ValueError | UnboundLocalError

type_synonym ustr = "int list"

type_synonym dict = "(int \<times> ustr) list"

definition dict_contains :: "dict \<Rightarrow> int \<Rightarrow> bool" where
  "dict_contains d k = (map_of d k \<noteq> None)"

definition dict_get :: "dict \<Rightarrow> int \<Rightarrow> py_error + ustr" where
  "dict_get d k = (case map_of d k of None \<Rightarrow> Inl KeyError | Some v \<Rightarrow> Inr v)"

definition dict_del :: "dict \<Rightarrow> int \<Rightarrow> py_error + dict" where
  "dict_del d k = (if dict_contains d k then Inr (AList.delete k d) else Inl KeyError)"

definition sorted_keys :: "dict \<Rightarrow> int list" where
  "sorted_keys d = sort (remdups (map fst d))"

text \<open>\<open>ord(s)\<close>: defined on strings of exactly one code point, TypeError otherwise.\<close>

fun py_ord :: "ustr \<Rightarrow> py_error + int" where
  "py_ord [c] = Inr c"
| "py_ord _ = Inl TypeError"

text \<open>\<open>xs[i]\<close> and \<open>xs[i] += d\<close> on a Python list: a negative index counts from the end.\<close>

definition list_get :: "'a list \<Rightarrow> int \<Rightarrow> py_error + 'a" where
  "list_get xs i =
     (let n = int (length xs); j = (if i < 0 then i + n else i)
      in if 0 \<le> j \<and> j < n then Inr (xs ! nat j) else Inl IndexError)"

definition list_add_at :: "int list \<Rightarrow> int \<Rightarrow> int \<Rightarrow> py_error + int list" where
  "list_add_at xs i d =
     (let n = int (length xs); j = (if i < 0 then i + n else i)
      in if 0 \<le> j \<and> j < n then Inr (xs[nat j := xs ! nat j + d]) else Inl IndexError)"

text \<open>A \<open>for\<close> loop over a list, threading the loop state; an exception ends it.\<close>

fun for_each :: "('s \<Rightarrow> 'a \<Rightarrow> py_error + 's) \<Rightarrow> 'a list \<Rightarrow> 's \<Rightarrow> py_error + 's" where
  "for_each body [] s = Inr s"
| "for_each body (x # xs) s =
     (case body s x of Inl e \<Rightarrow> Inl e | Inr s' \<Rightarrow> for_each body xs s')"

text \<open>\<open>range(n)\<close> and \<open>range(0, n, step)\<close> for a positive step.\<close>

definition py_range :: "int \<Rightarrow> int list" where
  "py_range n = map int [0..<nat n]"

definition py_range_step :: "int \<Rightarrow> nat \<Rightarrow> int list" where
  "py_range_step n step = map (\<lambda>i. int (i * step)) [0..<(nat n + step - 1) div step]"

section \<open>is_bidirectional_conversion and calculate_conversion_distance\<close>

definition is_bidirectional_conversion :: "int \<Rightarrow> dict \<Rightarrow> dict \<Rightarrow> py_error + bool" where
  "is_bidirectional_conversion letter_id letter_case reverse_letter_case =
     (if \<not> dict_contains letter_case letter_id then Inr False
      else (case dict_get letter_case letter_id of Inl e \<Rightarrow> Inl e | Inr mapped_value \<Rightarrow>
        (if length mapped_value > 1 then Inr False
         else (case py_ord mapped_value of Inl e \<Rightarrow> Inl e | Inr mapped_value_id \<Rightarrow>
          (if \<not> dict_contains reverse_letter_case mapped_value_id then Inr False
           else (case dict_get reverse_letter_case mapped_value_id of Inl e \<Rightarrow> Inl e
            | Inr back \<Rightarrow>
              (if length back > 1 then Inr False
               else (case py_ord back of Inl e \<Rightarrow> Inl e
                | Inr back_id \<Rightarrow>
                    (if back_id \<noteq> letter_id then Inr False else Inr True)))))))))"

definition calculate_conversion_distance :: "dict \<Rightarrow> int \<Rightarrow> py_error + int option" where
  "calculate_conversion_distance letter_case letter_id =
     (if \<not> dict_contains letter_case letter_id then Inr None
      else (case dict_get letter_case letter_id of Inl e \<Rightarrow> Inl e | Inr mapped_value \<Rightarrow>
        (if length mapped_value > 1 then Inr None
         else (case py_ord mapped_value of Inl e \<Rightarrow> Inl e
          | Inr mapped_value_id \<Rightarrow> Inr (Some (mapped_value_id - letter_id))))))"

section \<open>extract_ranges\<close>

record range_state =
  in_range :: bool
  range_position :: int
  ranges :: "int list"
  range_lengths :: "int list"

text \<open>
  The two guards at the head of the loop body: \<open>True\<close> when neither \<open>continue\<close> is taken,
  that is when \<open>letter_id\<close> and \<open>prev_letter_id\<close> are both eligible.
\<close>

definition ranges_guard :: "dict \<Rightarrow> dict option \<Rightarrow> int \<Rightarrow> int \<Rightarrow> py_error + bool" where
  "ranges_guard letter_case reverse_letter_case letter_id prev_letter_id =
     (case reverse_letter_case of
        None \<Rightarrow>
          (case dict_get letter_case letter_id of Inl e \<Rightarrow> Inl e | Inr mapped_value \<Rightarrow>
            (if length mapped_value > 1 then Inr False
             else if \<not> dict_contains letter_case prev_letter_id then Inr False
             else (case dict_get letter_case prev_letter_id of Inl e \<Rightarrow> Inl e
              | Inr prev_mapped \<Rightarrow> Inr (\<not> length prev_mapped > 1))))
      | Some reverse \<Rightarrow>
          (case is_bidirectional_conversion letter_id letter_case reverse of Inl e \<Rightarrow> Inl e
           | Inr b \<Rightarrow>
              (if \<not> b then Inr False
               else is_bidirectional_conversion prev_letter_id letter_case reverse)))"

definition extract_ranges_body ::
  "dict \<Rightarrow> dict option \<Rightarrow> range_state \<Rightarrow> int \<Rightarrow> py_error + range_state" where
  "extract_ranges_body letter_case reverse_letter_case st letter_id =
     (let prev_letter_id = letter_id - 1 in
      (case ranges_guard letter_case reverse_letter_case letter_id prev_letter_id of
         Inl e \<Rightarrow> Inl e
       | Inr False \<Rightarrow> Inr (st\<lparr>in_range := False\<rparr>)
       | Inr True \<Rightarrow>
          (case calculate_conversion_distance letter_case letter_id of Inl e \<Rightarrow> Inl e
           | Inr conv_distance \<Rightarrow>
          (case calculate_conversion_distance letter_case prev_letter_id of Inl e \<Rightarrow> Inl e
           | Inr prev_conv_distance \<Rightarrow>
            (if conv_distance \<noteq> prev_conv_distance then Inr (st\<lparr>in_range := False\<rparr>)
             else if in_range st then
               (case list_add_at (range_lengths st) (range_position st) 1 of Inl e \<Rightarrow> Inl e
                | Inr ls \<Rightarrow> Inr (st\<lparr>range_lengths := ls\<rparr>))
             else
               (case dict_get letter_case prev_letter_id of Inl e \<Rightarrow> Inl e
                | Inr prev_mapped \<Rightarrow>
                  (case py_ord prev_mapped of Inl e \<Rightarrow> Inl e
                   | Inr prev_mapped_id \<Rightarrow>
                      Inr \<lparr>in_range = True,
                           range_position = range_position st + 1,
                           ranges = ranges st @ [prev_letter_id, prev_mapped_id],
                           range_lengths = range_lengths st @ [2]\<rparr>)))))))"

fun remove_range_body ::
  "int list \<Rightarrow> int \<Rightarrow> dict \<times> dict option \<Rightarrow> int \<Rightarrow> py_error + dict \<times> dict option" where
  "remove_range_body rs idx (letter_case, reverse_letter_case) incr =
     (case list_get rs idx of Inl e \<Rightarrow> Inl e | Inr start \<Rightarrow>
       (case dict_del letter_case (start + incr) of Inl e \<Rightarrow> Inl e | Inr letter_case' \<Rightarrow>
         (case reverse_letter_case of
            None \<Rightarrow> Inr (letter_case', None)
          | Some reverse \<Rightarrow>
             (case list_get rs (idx + 1) of Inl e \<Rightarrow> Inl e | Inr mapped_start \<Rightarrow>
               (case dict_del reverse (mapped_start + incr) of Inl e \<Rightarrow> Inl e
                | Inr reverse' \<Rightarrow> Inr (letter_case', Some reverse'))))))"

definition remove_ranges_body ::
  "int list \<Rightarrow> int list \<Rightarrow> dict \<times> dict option \<Rightarrow> int \<Rightarrow> py_error + dict \<times> dict option" where
  "remove_ranges_body rs ls maps idx =
     (case list_get ls (idx div 2) of Inl e \<Rightarrow> Inl e
      | Inr range_length \<Rightarrow> for_each (remove_range_body rs idx) (py_range range_length) maps)"

definition extract_ranges ::
  "dict \<Rightarrow> dict option \<Rightarrow> py_error + (int list \<times> int list) \<times> dict \<times> dict option" where
  "extract_ranges letter_case reverse_letter_case =
     (case for_each (extract_ranges_body letter_case reverse_letter_case)
             (sorted_keys letter_case)
             \<lparr>in_range = False, range_position = - 1, ranges = [], range_lengths = []\<rparr> of
        Inl e \<Rightarrow> Inl e
      | Inr st \<Rightarrow>
         (case for_each (remove_ranges_body (ranges st) (range_lengths st))
                 (py_range_step (int (length (ranges st))) 2)
                 (letter_case, reverse_letter_case) of
            Inl e \<Rightarrow> Inl e
          | Inr (letter_case', reverse_letter_case') \<Rightarrow>
              Inr ((ranges st, range_lengths st), letter_case', reverse_letter_case')))"

section \<open>extract_character_pair_ranges\<close>

record pair_state =
  pr_in_range :: bool
  element_counter :: int
  start_points :: "int list"
  lengths :: "int list"

definition pair_ranges_body :: "dict \<Rightarrow> dict \<Rightarrow> pair_state \<Rightarrow> int \<Rightarrow> py_error + pair_state" where
  "pair_ranges_body letter_case reverse_letter_case st letter_id =
     (case is_bidirectional_conversion letter_id letter_case reverse_letter_case of
        Inl e \<Rightarrow> Inl e
      | Inr False \<Rightarrow> Inr (st\<lparr>pr_in_range := False\<rparr>)
      | Inr True \<Rightarrow>
         (case dict_get letter_case letter_id of Inl e \<Rightarrow> Inl e | Inr mapped_value \<Rightarrow>
           (case py_ord mapped_value of Inl e \<Rightarrow> Inl e | Inr mapped_value_id \<Rightarrow>
             (if mapped_value_id = letter_id + 1 then
                (let prev_letter_id = letter_id - 2 in
                 (case is_bidirectional_conversion prev_letter_id letter_case
                         reverse_letter_case of
                    Inl e \<Rightarrow> Inl e
                  | Inr prev_ok \<Rightarrow>
                     (if (if \<not> prev_ok then False else pr_in_range st) then
                        (case list_add_at (lengths st) (element_counter st) 2 of
                           Inl e \<Rightarrow> Inl e
                         | Inr ls \<Rightarrow> Inr (st\<lparr>pr_in_range := True, lengths := ls\<rparr>))
                      else
                        Inr \<lparr>pr_in_range = True,
                             element_counter = element_counter st + 1,
                             start_points = start_points st @ [letter_id],
                             lengths = lengths st @ [2]\<rparr>)))
              else Inr (st\<lparr>pr_in_range := False\<rparr>)))))"

fun remove_pair_body :: "int \<Rightarrow> dict \<times> dict \<Rightarrow> int \<Rightarrow> py_error + dict \<times> dict" where
  "remove_pair_body letter_id (letter_case, reverse_letter_case) incr =
     (case dict_del letter_case (letter_id + incr) of Inl e \<Rightarrow> Inl e | Inr letter_case' \<Rightarrow>
       (case dict_del reverse_letter_case (letter_id + 1 + incr) of Inl e \<Rightarrow> Inl e
        | Inr reverse' \<Rightarrow> Inr (letter_case', reverse')))"

definition remove_pair_ranges_body ::
  "int list \<Rightarrow> int list \<Rightarrow> dict \<times> dict \<Rightarrow> int \<Rightarrow> py_error + dict \<times> dict" where
  "remove_pair_ranges_body sps ls maps idx =
     (case list_get sps idx of Inl e \<Rightarrow> Inl e | Inr letter_id \<Rightarrow>
       (case list_get ls idx of Inl e \<Rightarrow> Inl e | Inr conv_length \<Rightarrow>
         for_each (remove_pair_body letter_id) (py_range_step conv_length 2) maps))"

definition extract_character_pair_ranges ::
  "dict \<Rightarrow> dict \<Rightarrow> py_error + (int list \<times> int list) \<times> dict \<times> dict" where
  "extract_character_pair_ranges letter_case reverse_letter_case =
     (case for_each (pair_ranges_body letter_case reverse_letter_case)
             (sorted_keys letter_case)
             \<lparr>pr_in_range = False, element_counter = - 1, start_points = [], lengths = []\<rparr> of
        Inl e \<Rightarrow> Inl e
      | Inr st \<Rightarrow>
         (case for_each (remove_pair_ranges_body (start_points st) (lengths st))
                 (py_range (int (length (start_points st))))
                 (letter_case, reverse_letter_case) of
            Inl e \<Rightarrow> Inl e
          | Inr (letter_case', reverse') \<Rightarrow>
              Inr ((start_points st, lengths st), letter_case', reverse')))"

section \<open>extract_character_pairs\<close>

fun character_pairs_body ::
  "int list \<times> dict \<times> dict \<Rightarrow> int \<Rightarrow> py_error + int list \<times> dict \<times> dict" where
  "character_pairs_body (character_pairs, letter_case, reverse_letter_case) letter_id =
     (case is_bidirectional_conversion letter_id letter_case reverse_letter_case of
        Inl e \<Rightarrow> Inl e
      | Inr False \<Rightarrow> Inr (character_pairs, letter_case, reverse_letter_case)
      | Inr True \<Rightarrow>
         (case dict_get letter_case letter_id of Inl e \<Rightarrow> Inl e | Inr mapped_value \<Rightarrow>
           (case py_ord mapped_value of Inl e \<Rightarrow> Inl e | Inr mapped_value_id \<Rightarrow>
             (case dict_del letter_case letter_id of Inl e \<Rightarrow> Inl e | Inr letter_case' \<Rightarrow>
               (case dict_del reverse_letter_case mapped_value_id of Inl e \<Rightarrow> Inl e
                | Inr reverse' \<Rightarrow>
                    Inr (character_pairs @ [letter_id, mapped_value_id],
                         letter_case', reverse'))))))"

definition extract_character_pairs :: "dict \<Rightarrow> dict \<Rightarrow> py_error + int list \<times> dict \<times> dict" where
  "extract_character_pairs letter_case reverse_letter_case =
     for_each character_pairs_body (sorted_keys letter_case)
       ([], letter_case, reverse_letter_case)"

section \<open>extract_special_ranges\<close>

text \<open>
  The function never assigns \<open>in_range\<close> before the loop: the variable is unbound (\<open>None\<close>)
  until one of the assignments in the body runs, and reading it unbound raises
  UnboundLocalError.
\<close>

record special_state =
  sp_in_range :: "bool option"
  sp_range_position :: int
  special_ranges :: "int list"
  special_range_lengths :: "int list"

definition special_ranges_body :: "dict \<Rightarrow> special_state \<Rightarrow> int \<Rightarrow> py_error + special_state" where
  "special_ranges_body letter_case st letter_id =
     (case dict_get letter_case letter_id of Inl e \<Rightarrow> Inl e | Inr mapped_value \<Rightarrow>
       (if length mapped_value \<noteq> 2 then Inr st
        else
         (let prev_letter_id = letter_id - 1 in
          (if \<not> dict_contains letter_case prev_letter_id
           then Inr (st\<lparr>sp_in_range := Some False\<rparr>)
           else
            (case dict_get letter_case prev_letter_id of Inl e \<Rightarrow> Inl e
             | Inr prev_mapped_value \<Rightarrow>
               (if length prev_mapped_value \<noteq> 2 then Inr st
                else if prev_mapped_value ! 1 \<noteq> mapped_value ! 1 then Inr st
                else if prev_mapped_value ! 0 - prev_letter_id \<noteq> mapped_value ! 0 - letter_id
                  then Inr (st\<lparr>sp_in_range := Some False\<rparr>)
                else
                 (case sp_in_range st of
                    None \<Rightarrow> Inl UnboundLocalError
                  | Some True \<Rightarrow>
                     (case list_add_at (special_range_lengths st) (sp_range_position st) 1 of
                        Inl e \<Rightarrow> Inl e
                      | Inr ls \<Rightarrow> Inr (st\<lparr>special_range_lengths := ls\<rparr>))
                  | Some False \<Rightarrow>
                      Inr \<lparr>sp_in_range = Some True,
                           sp_range_position = sp_range_position st + 1,
                           special_ranges = special_ranges st @
                             [prev_letter_id, prev_mapped_value ! 0, prev_mapped_value ! 1],
                           special_range_lengths = special_range_lengths st @ [1]\<rparr>)))))))"

definition remove_special_body :: "int list \<Rightarrow> int \<Rightarrow> dict \<Rightarrow> int \<Rightarrow> py_error + dict" where
  "remove_special_body srs idx letter_case incr =
     (case list_get srs idx of Inl e \<Rightarrow> Inl e
      | Inr start \<Rightarrow> dict_del letter_case (start + incr))"

definition remove_special_ranges_body ::
  "int list \<Rightarrow> int list \<Rightarrow> dict \<Rightarrow> int \<Rightarrow> py_error + dict" where
  "remove_special_ranges_body srs ls letter_case idx =
     (case list_get ls (idx div 3) of Inl e \<Rightarrow> Inl e | Inr range_length \<Rightarrow>
       (case list_get srs idx of Inl e \<Rightarrow> Inl e | Inr letter_id \<Rightarrow>
         for_each (remove_special_body srs idx) (py_range range_length) letter_case))"

definition extract_special_ranges :: "dict \<Rightarrow> py_error + (int list \<times> int list) \<times> dict" where
  "extract_special_ranges letter_case =
     (case for_each (special_ranges_body letter_case) (sorted_keys letter_case)
             \<lparr>sp_in_range = None, sp_range_position = - 1,
              special_ranges = [], special_range_lengths = []\<rparr> of
        Inl e \<Rightarrow> Inl e
      | Inr st \<Rightarrow>
         (case for_each (remove_special_ranges_body (special_ranges st) (special_range_lengths st))
                 (py_range_step (int (length (special_ranges st))) 3) letter_case of
            Inl e \<Rightarrow> Inl e
          | Inr letter_case' \<Rightarrow>
              Inr ((special_ranges st, special_range_lengths st), letter_case')))"

section \<open>extract_conversions\<close>

text \<open>One of the three loops: the entries whose output has \<open>n\<close> code points.\<close>

fun conversions_body :: "nat \<Rightarrow> int list \<times> dict \<Rightarrow> int \<Rightarrow> py_error + int list \<times> dict" where
  "conversions_body n (unicodes, letter_case) letter_id =
     (case dict_get letter_case letter_id of Inl e \<Rightarrow> Inl e | Inr mapped_value \<Rightarrow>
       (if length mapped_value \<noteq> n then Inr (unicodes, letter_case)
        else
         (case dict_del letter_case letter_id of Inl e \<Rightarrow> Inl e
          | Inr letter_case' \<Rightarrow> Inr (unicodes @ letter_id # mapped_value, letter_case'))))"

definition conversions_loop :: "nat \<Rightarrow> dict \<Rightarrow> py_error + int list \<times> dict" where
  "conversions_loop n letter_case =
     for_each (conversions_body n) (sorted_keys letter_case) ([], letter_case)"

definition extract_conversions :: "dict \<Rightarrow> py_error + (int list \<times> int list) \<times> dict" where
  "extract_conversions letter_case =
     (case conversions_loop 1 letter_case of Inl e \<Rightarrow> Inl e | Inr (u0, lc1) \<Rightarrow>
       (case conversions_loop 2 lc1 of Inl e \<Rightarrow> Inl e | Inr (u1, lc2) \<Rightarrow>
         (case conversions_loop 3 lc2 of Inl e \<Rightarrow> Inl e | Inr (u2, lc3) \<Rightarrow>
           Inr ((u0 @ u1 @ u2,
                 [int (length u0) div 2, int (length u1) div 3, int (length u2) div 4]),
                lc3))))"

section \<open>ConversionTables.__init__\<close>

record tables =
  character_case_ranges :: "int list \<times> int list"
  character_pair_ranges :: "int list \<times> int list"
  character_pairs :: "int list"
  upper_case_special_ranges :: "int list \<times> int list"
  lower_case_ranges :: "int list \<times> int list"
  lower_case_conversions :: "int list \<times> int list"
  upper_case_conversions :: "int list \<times> int list"

text \<open>
  The dictionaries are mutated in place. A dictionary passed as the optional second
  argument of \<open>extract_ranges\<close> is the caller's object after the call; when none was
  passed, the caller's dictionary is unchanged.
\<close>

definition after_call :: "dict \<Rightarrow> dict option \<Rightarrow> dict" where
  "after_call d r = (case r of None \<Rightarrow> d | Some d' \<Rightarrow> d')"

text \<open>The seven calls of the constructor, with the two dictionaries as they are left.\<close>

definition extraction_pipeline :: "dict \<Rightarrow> dict \<Rightarrow> py_error + tables \<times> dict \<times> dict" where
  "extraction_pipeline lower_case upper_case =
     (case extract_ranges lower_case (Some upper_case) of Inl e \<Rightarrow> Inl e
      | Inr (t1, lower1, r1) \<Rightarrow>
     (case extract_character_pair_ranges lower1 (after_call upper_case r1) of Inl e \<Rightarrow> Inl e
      | Inr (t2, lower2, upper2) \<Rightarrow>
     (case extract_character_pairs lower2 upper2 of Inl e \<Rightarrow> Inl e
      | Inr (t3, lower3, upper3) \<Rightarrow>
     (case extract_special_ranges upper3 of Inl e \<Rightarrow> Inl e
      | Inr (t4, upper4) \<Rightarrow>
     (case extract_ranges lower3 None of Inl e \<Rightarrow> Inl e
      | Inr (t5, lower5, r5) \<Rightarrow>
     (case extract_conversions lower5 of Inl e \<Rightarrow> Inl e
      | Inr (t6, lower6) \<Rightarrow>
     (case extract_conversions (after_call upper4 r5) of Inl e \<Rightarrow> Inl e
      | Inr (t7, upper7) \<Rightarrow>
         Inr (\<lparr>character_case_ranges = t1,
               character_pair_ranges = t2,
               character_pairs = t3,
               upper_case_special_ranges = t4,
               lower_case_ranges = t5,
               lower_case_conversions = t6,
               upper_case_conversions = t7\<rparr>, lower6, upper7))))))))"

text \<open>
  The constructor keeps the tables; a dictionary that is not empty at the end only
  produces a call of \<open>warnings.warn\<close>, collected here in order.
\<close>

definition ConversionTables_init :: "dict \<Rightarrow> dict \<Rightarrow> py_error + tables \<times> string list" where
  "ConversionTables_init lower_case upper_case =
     (case extraction_pipeline lower_case upper_case of Inl e \<Rightarrow> Inl e
      | Inr (t, lower_end, upper_end) \<Rightarrow>
          Inr (t,
            (if lower_end \<noteq> [] then [''Not all elements extracted from the lowercase table!'']
             else []) @
            (if upper_end \<noteq> [] then [''Not all elements extracted from the uppercase table!'']
             else [])))"

section \<open>parse_unicode_sequence and read_case_mappings\<close>

text \<open>
  \<open>int(s, 16)\<close> on a byte string: surrounding ASCII white space is dropped, then an
  optional sign, an optional \<open>0x\<close> prefix and at least one hexadecimal digit are read;
  anything else is a ValueError. (Python 3 also reads single underscores between digits and
  Python 2 does not; an underscore is a ValueError here.)
\<close>

definition hex_digit :: "char \<Rightarrow> int option" where
  "hex_digit c =
     (let n = (of_char c :: nat) in
      if 48 \<le> n \<and> n \<le> 57 then Some (int n - 48)
      else if 65 \<le> n \<and> n \<le> 70 then Some (int n - 55)
      else if 97 \<le> n \<and> n \<le> 102 then Some (int n - 87)
      else None)"

fun hex_digits :: "int \<Rightarrow> string \<Rightarrow> int option" where
  "hex_digits acc [] = Some acc"
| "hex_digits acc (c # cs) =
     (case hex_digit c of None \<Rightarrow> None | Some d \<Rightarrow> hex_digits (16 * acc + d) cs)"

definition is_space :: "char \<Rightarrow> bool" where
  "is_space c = (let n = (of_char c :: nat) in n = 32 \<or> (9 \<le> n \<and> n \<le> 13))"

definition strip :: "string \<Rightarrow> string" where
  "strip s = rev (dropWhile is_space (rev (dropWhile is_space s)))"

fun drop_prefix_0x :: "string \<Rightarrow> string" where
  "drop_prefix_0x (a # b # cs) =
     (if a = CHR ''0'' \<and> (b = CHR ''x'' \<or> b = CHR ''X'') then cs else a # b # cs)"
| "drop_prefix_0x cs = cs"

definition unsigned16 :: "string \<Rightarrow> py_error + int" where
  "unsigned16 s =
     (let ds = drop_prefix_0x s in
      if ds = [] then Inl ValueError
      else (case hex_digits 0 ds of None \<Rightarrow> Inl ValueError | Some n \<Rightarrow> Inr n))"

definition py_int16 :: "string \<Rightarrow> py_error + int" where
  "py_int16 s =
     (case strip s of
        [] \<Rightarrow> Inl ValueError
      | c # cs \<Rightarrow>
          (if c = CHR ''-'' then
             (case unsigned16 cs of Inl e \<Rightarrow> Inl e | Inr n \<Rightarrow> Inr (- n))
           else if c = CHR ''+'' then unsigned16 cs
           else unsigned16 (c # cs)))"

text \<open>\<open>chr(n)\<close> (\<open>unichr\<close> on Python 2): the one-character string, ValueError out of range.\<close>

definition py_chr :: "int \<Rightarrow> py_error + ustr" where
  "py_chr n = (if 0 \<le> n \<and> n < 0x110000 then Inr [n] else Inl ValueError)"

text \<open>\<open>s.split(sep)\<close> with a one-character separator: empty pieces are kept.\<close>

fun split_on :: "char \<Rightarrow> string \<Rightarrow> string list" where
  "split_on sep [] = [[]]"
| "split_on sep (c # cs) =
     (if c = sep then [] # split_on sep cs
      else (case split_on sep cs of [] \<Rightarrow> [[c]] | w # ws \<Rightarrow> (c # w) # ws))"

definition parse_unicode_sequence_body :: "ustr \<Rightarrow> string \<Rightarrow> py_error + ustr" where
  "parse_unicode_sequence_body result unicode_char =
     (if unicode_char = [] then Inr result
      else (case py_int16 unicode_char of Inl e \<Rightarrow> Inl e | Inr hex_val \<Rightarrow>
        (case py_chr hex_val of Inl e \<Rightarrow> Inl e | Inr ch \<Rightarrow> Inr (result @ ch))))"

definition parse_unicode_sequence :: "string \<Rightarrow> py_error + ustr" where
  "parse_unicode_sequence raw_data =
     for_each parse_unicode_sequence_body (split_on CHR '' '' raw_data) []"

text \<open>
  The two files are read through \<open>csv.reader\<close> with \<open>;\<close> as delimiter, which is outside
  the script: a file is taken here as the rows the reader yields, each a list of fields.
\<close>

text \<open>\<open>s.find('#')\<close>: the index of the first \<open>#\<close>, or \<open>-1\<close>.\<close>

fun find_hash :: "string \<Rightarrow> int" where
  "find_hash [] = - 1"
| "find_hash (c # cs) =
     (if c = CHR ''#'' then 0 else (let r = find_hash cs in if r < 0 then - 1 else r + 1))"

text \<open>The loop \<open>for idx, i in enumerate(line)\<close> that blanks fields.\<close>

definition blank_comment_body :: "string list \<Rightarrow> nat \<Rightarrow> py_error + string list" where
  "blank_comment_body line idx =
     (if find_hash (line ! idx) \<ge> 0 then Inr (line[idx := []]) else Inr line)"

definition blank_comments :: "string list \<Rightarrow> py_error + string list" where
  "blank_comments line = for_each blank_comment_body [0..<length line] line"

definition dict_set :: "dict \<Rightarrow> int \<Rightarrow> ustr \<Rightarrow> dict" where
  "dict_set d k v = AList.update k v d"

fun unicode_data_body :: "dict \<times> dict \<Rightarrow> string list \<Rightarrow> py_error + dict \<times> dict" where
  "unicode_data_body (lower_case_mapping, upper_case_mapping) line =
     (case list_get line 0 of Inl e \<Rightarrow> Inl e | Inr field0 \<Rightarrow>
     (case py_int16 field0 of Inl e \<Rightarrow> Inl e | Inr letter_id \<Rightarrow>
       (if letter_id \<ge> 0x10000 \<or> letter_id < 128
        then Inr (lower_case_mapping, upper_case_mapping)
        else
         (case list_get line 12 of Inl e \<Rightarrow> Inl e | Inr capital_letter \<Rightarrow>
         (case list_get line 13 of Inl e \<Rightarrow> Inl e | Inr small_letter \<Rightarrow>
         (case (if capital_letter \<noteq> []
                then (case parse_unicode_sequence capital_letter of Inl e \<Rightarrow> Inl e
                      | Inr u \<Rightarrow> Inr (dict_set upper_case_mapping letter_id u))
                else Inr upper_case_mapping) of Inl e \<Rightarrow> Inl e
          | Inr upper' \<Rightarrow>
         (case (if small_letter \<noteq> []
                then (case parse_unicode_sequence small_letter of Inl e \<Rightarrow> Inl e
                      | Inr l \<Rightarrow> Inr (dict_set lower_case_mapping letter_id l))
                else Inr lower_case_mapping) of Inl e \<Rightarrow> Inl e
          | Inr lower' \<Rightarrow> Inr (lower', upper'))))))))"

fun special_casing_body :: "dict \<times> dict \<Rightarrow> string list \<Rightarrow> py_error + dict \<times> dict" where
  "special_casing_body (lower_case_mapping, upper_case_mapping) line =
     (if line = [] \<or> (hd line \<noteq> [] \<and> hd (hd line) = CHR ''#'')
      then Inr (lower_case_mapping, upper_case_mapping)
      else
       (case blank_comments line of Inl e \<Rightarrow> Inl e | Inr line' \<Rightarrow>
       (case list_get line' 0 of Inl e \<Rightarrow> Inl e | Inr field0 \<Rightarrow>
       (case py_int16 field0 of Inl e \<Rightarrow> Inl e | Inr letter_id \<Rightarrow>
       (case list_get line' 4 of Inl e \<Rightarrow> Inl e | Inr condition_list \<Rightarrow>
         (if letter_id \<ge> 0x10000 \<or> letter_id < 128 \<or> condition_list \<noteq> []
          then Inr (lower_case_mapping, upper_case_mapping)
          else
           (case list_get line' 1 of Inl e \<Rightarrow> Inl e | Inr field1 \<Rightarrow>
           (case parse_unicode_sequence field1 of Inl e \<Rightarrow> Inl e | Inr small_letter \<Rightarrow>
           (case list_get line' 3 of Inl e \<Rightarrow> Inl e | Inr field3 \<Rightarrow>
           (case parse_unicode_sequence field3 of Inl e \<Rightarrow> Inl e | Inr capital_letter \<Rightarrow>
              Inr (dict_set lower_case_mapping letter_id small_letter,
                   dict_set upper_case_mapping letter_id capital_letter)))))))))))"

definition read_case_mappings ::
  "string list list \<Rightarrow> string list list \<Rightarrow> py_error + dict \<times> dict" where
  "read_case_mappings unicode_data special_casing =
     (case for_each unicode_data_body unicode_data ([], []) of Inl e \<Rightarrow> Inl e
      | Inr maps \<Rightarrow> for_each special_casing_body special_casing maps)"

section \<open>The residual buckets, as the claims describe them\<close>

text \<open>
  The entries of a dictionary whose output has \<open>n\<close> code points, in ascending order of
  their keys, the flat table they are written to, and the dictionary without the entries
  whose arity is in a given set.
\<close>

definition arity_entry :: "nat \<Rightarrow> dict \<Rightarrow> int \<Rightarrow> (int \<times> ustr) option" where
  "arity_entry n d k =
     (case map_of d k of None \<Rightarrow> None | Some v \<Rightarrow> if length v = n then Some (k, v) else None)"

definition conversion_bucket :: "nat \<Rightarrow> dict \<Rightarrow> (int \<times> ustr) list" where
  "conversion_bucket n d = List.map_filter (arity_entry n d) (sorted_keys d)"

definition flat_bucket :: "(int \<times> ustr) list \<Rightarrow> int list" where
  "flat_bucket b = concat (map (\<lambda>(k, v). k # v) b)"

definition without_arity :: "nat set \<Rightarrow> dict \<Rightarrow> int \<Rightarrow> ustr option" where
  "without_arity A d k =
     (case map_of d k of None \<Rightarrow> None | Some v \<Rightarrow> if length v \<in> A then None else Some v)"

section \<open>Predicates of the claims\<close>

text \<open>
  \<open>bidirectional\<close>: \<open>c\<close> has the single output \<open>m\<close> and the reverse dictionary sends \<open>m\<close>
  back to \<open>c\<close>. \<open>maps_to\<close>: \<open>c\<close> has the single output \<open>m\<close>, in both directions when a
  reverse dictionary is given. \<open>adjacent\<close>: \<open>c - 1\<close> and \<open>c\<close> are both eligible and have the
  same offset, that is \<open>c\<close> has a qualifying neighbour on its left. \<open>range_triples\<close> reads
  the two flat tables of \<open>extract_ranges\<close> as (start, mapped start, length) records, and
  \<open>ranges_inv\<close> is the loop invariant of its scan after the keys \<open>pre\<close>.
\<close>

definition bidirectional :: "dict \<Rightarrow> dict \<Rightarrow> int \<Rightarrow> bool" where
  "bidirectional lc rc c =
     (case map_of lc c of Some [m] \<Rightarrow> map_of rc m = Some [c] | _ \<Rightarrow> False)"

definition maps_to :: "dict \<Rightarrow> dict option \<Rightarrow> int \<Rightarrow> int \<Rightarrow> bool" where
  "maps_to lc rc c m =
     (map_of lc c = Some [m] \<and> (case rc of None \<Rightarrow> True | Some r \<Rightarrow> map_of r m = Some [c]))"

definition adjacent :: "dict \<Rightarrow> dict option \<Rightarrow> int \<Rightarrow> bool" where
  "adjacent lc rc c =
     (case map_of lc (c - 1) of
        Some [pm] \<Rightarrow> maps_to lc rc (c - 1) pm \<and> maps_to lc rc c (pm + 1)
      | _ \<Rightarrow> False)"

definition range_triples :: "int list \<Rightarrow> int list \<Rightarrow> (int \<times> int \<times> int) list" where
  "range_triples rs ls = map (\<lambda>i. (rs ! (2 * i), rs ! (2 * i + 1), ls ! i)) [0..<length ls]"

definition ranges_inv :: "dict \<Rightarrow> dict option \<Rightarrow> int list \<Rightarrow> range_state \<Rightarrow> bool" where
  "ranges_inv lc rc pre st \<longleftrightarrow>
     length (ranges st) = 2 * length (range_lengths st) \<and>
     range_position st = int (length (range_lengths st)) - 1 \<and>
     (\<forall>s m n. (s, m, n) \<in> set (range_triples (ranges st) (range_lengths st)) \<longrightarrow>
        2 \<le> n \<and> (\<forall>j. 0 \<le> j \<and> j < n \<longrightarrow> maps_to lc rc (s + j) (m + j) \<and> s + j \<in> set pre)) \<and>
     (in_range st \<longrightarrow> range_lengths st \<noteq> [] \<and> pre \<noteq> [] \<and>
        (\<exists>s m n. last (range_triples (ranges st) (range_lengths st)) = (s, m, n) \<and>
                 s + n - 1 = last pre)) \<and>
     (\<forall>c \<in> set pre. adjacent lc rc c \<longrightarrow>
        (\<exists>s m n. (s, m, n) \<in> set (range_triples (ranges st) (range_lengths st)) \<and>
                 s < c \<and> c < s + n))"

definition removed :: "dict \<Rightarrow> int list \<Rightarrow> dict \<Rightarrow> bool" where
  "removed d ks d' \<longleftrightarrow>
     distinct ks \<and> set ks \<subseteq> dom (map_of d) \<and>
     map_of d' = (\<lambda>k. if k \<in> set ks then None else map_of d k)"

definition range_domain :: "int list \<times> int list \<Rightarrow> int list" where
  "range_domain t =
     (case t of (rs, ls) \<Rightarrow>
        concat (map (\<lambda>i. map (\<lambda>j. rs ! (2 * i) + j) (py_range (ls ! i))) [0..<length ls]))"

definition range_codomain :: "int list \<times> int list \<Rightarrow> int list" where
  "range_codomain t =
     (case t of (rs, ls) \<Rightarrow>
        concat (map (\<lambda>i. map (\<lambda>j. rs ! (2 * i + 1) + j) (py_range (ls ! i))) [0..<length ls]))"

definition swap_member :: "dict \<Rightarrow> dict \<Rightarrow> int \<Rightarrow> bool" where
  "swap_member lc rc c = maps_to lc (Some rc) c (c + 1)"

definition pair_inv :: "dict \<Rightarrow> dict \<Rightarrow> int list \<Rightarrow> pair_state \<Rightarrow> bool" where
  "pair_inv lc rc pre st \<longleftrightarrow>
     length (lengths st) = length (start_points st) \<and>
     element_counter st = int (length (lengths st)) - 1 \<and>
     (\<forall>n \<in> set (lengths st). 2 \<le> n \<and> even n) \<and>
     set (start_points st) \<subseteq> set pre \<and>
     (\<forall>c \<in> set pre. swap_member lc rc c \<and> \<not> bidirectional lc rc (c - 2)
          \<longrightarrow> c \<in> set (start_points st))"

definition pair_sound_inv :: "dict \<Rightarrow> dict \<Rightarrow> int list \<Rightarrow> pair_state \<Rightarrow> bool" where
  "pair_sound_inv lc rc pre st \<longleftrightarrow>
     (\<forall>s n. (s, n) \<in> set (zip (start_points st) (lengths st)) \<longrightarrow>
        (\<forall>j. 0 \<le> j \<and> j < n \<and> even j \<longrightarrow> swap_member lc rc (s + j) \<and> s + j \<in> set pre)) \<and>
     (pr_in_range st \<longrightarrow> lengths st \<noteq> [] \<and> pre \<noteq> [] \<and>
        last (start_points st) + last (lengths st) - 2 = last pre)"

definition pair_domain :: "int list \<times> int list \<Rightarrow> int list" where
  "pair_domain t =
     (case t of (sps, ls) \<Rightarrow>
        concat (map (\<lambda>i. map (\<lambda>j. sps ! i + j) (py_range_step (ls ! i) 2)) [0..<length sps]))"

definition pair_codomain :: "int list \<times> int list \<Rightarrow> int list" where
  "pair_codomain t =
     (case t of (sps, ls) \<Rightarrow>
        concat (map (\<lambda>i. map (\<lambda>j. sps ! i + 1 + j) (py_range_step (ls ! i) 2)) [0..<length sps]))"

definition pair_entries :: "int list \<Rightarrow> (int \<times> int) list" where
  "pair_entries ps = map (\<lambda>i. (ps ! (2 * i), ps ! (2 * i + 1))) [0..<length ps div 2]"

definition flat_pairs :: "(int \<times> int) list \<Rightarrow> int list" where
  "flat_pairs qs = concat (map (\<lambda>(a, b). [a, b]) qs)"

definition special_domain :: "int list \<times> int list \<Rightarrow> int list" where
  "special_domain t =
     (case t of (srs, ls) \<Rightarrow>
        concat (map (\<lambda>i. map (\<lambda>j. srs ! (3 * i) + j) (py_range (ls ! i))) [0..<length ls]))"

definition conv_keys :: "nat \<Rightarrow> nat \<Rightarrow> int list \<Rightarrow> int list" where
  "conv_keys w cnt flat = map (\<lambda>i. flat ! (i * w)) [0..<cnt]"

definition conversions_domain :: "int list \<times> int list \<Rightarrow> int list" where
  "conversions_domain t =
     (case t of (flat, counts) \<Rightarrow>
        (let n1 = nat (counts ! 0); n2 = nat (counts ! 1); n3 = nat (counts ! 2)
         in conv_keys 2 n1 flat @ conv_keys 3 n2 (drop (2 * n1) flat) @
            conv_keys 4 n3 (drop (2 * n1 + 3 * n2) flat)))"

definition lower_cover :: "tables \<Rightarrow> int list" where
  "lower_cover t =
     range_domain (character_case_ranges t) @
     pair_domain (character_pair_ranges t) @
     map fst (pair_entries (character_pairs t)) @
     range_domain (lower_case_ranges t) @
     conversions_domain (lower_case_conversions t)"

definition upper_cover :: "tables \<Rightarrow> int list" where
  "upper_cover t =
     range_codomain (character_case_ranges t) @
     pair_codomain (character_pair_ranges t) @
     map snd (pair_entries (character_pairs t)) @
     special_domain (upper_case_special_ranges t) @
     conversions_domain (upper_case_conversions t)"

definition well_formed :: "dict \<Rightarrow> bool" where
  "well_formed d = list_all (\<lambda>(k, v). length v \<in> {1, 2, 3}) d"

definition range_entries :: "int list \<times> int list \<Rightarrow> (int \<times> int) list" where
  "range_entries t =
     (case t of (rs, ls) \<Rightarrow>
        concat (map (\<lambda>i. map (\<lambda>j. (rs ! (2 * i) + j, rs ! (2 * i + 1) + j)) (py_range (ls ! i)))
                  [0..<length ls]))"

definition pair_range_entries :: "int list \<times> int list \<Rightarrow> (int \<times> int) list" where
  "pair_range_entries t =
     (case t of (sps, ls) \<Rightarrow>
        concat (map (\<lambda>i. map (\<lambda>j. (sps ! i + j, sps ! i + 1 + j)) (py_range_step (ls ! i) 2))
                  [0..<length sps]))"

definition round_trip :: "dict \<Rightarrow> dict \<Rightarrow> int \<Rightarrow> int \<Rightarrow> bool" where
  "round_trip lc rc c m \<longleftrightarrow>
     map_of lc c = Some [m] \<and> map_of rc m = Some [c] \<and>
     is_bidirectional_conversion c lc rc = Inr True"

definition sample_lower :: dict where
  "sample_lower =
     [(0x391, [0x3B1]), (0x392, [0x3B2]), (0x100, [0x101]), (0x178, [0xFF]),
      (0x130, [0x69, 0x307]), (0x1E9E, [0xDF])]"

definition sample_upper :: dict where
  "sample_upper =
     [(0x3B1, [0x391]), (0x3B2, [0x392]), (0x101, [0x100]), (0xFF, [0x178]),
      (0xDF, [0x53, 0x53]), (0x1F80, [0x1F08, 0x399]), (0x1F81, [0x1F09, 0x399]),
      (0xFB03, [0x46, 0x46, 0x49])]"

definition sample_tables :: tables where
  "sample_tables =
     \<lparr>character_case_ranges = ([0x391, 0x3B1], [2]),
      character_pair_ranges = ([0x100], [2]),
      character_pairs = [0x178, 0xFF],
      upper_case_special_ranges = ([0x1F80, 0x1F08, 0x399], [1]),
      lower_case_ranges = ([], []),
      lower_case_conversions = ([0x1E9E, 0xDF, 0x130, 0x69, 0x307], [1, 1, 0]),
      upper_case_conversions =
        ([0xDF, 0x53, 0x53, 0x1F81, 0x1F09, 0x399, 0xFB03, 0x46, 0x46, 0x49], [0, 2, 1])\<rparr>"

text \<open>Two dictionaries with the same entries, whatever the order of insertion.\<close>

definition same_dict :: "dict \<Rightarrow> dict \<Rightarrow> bool" where
  "same_dict a b \<longleftrightarrow> map_of a = map_of b"

section \<open>Basic facts\<close>

lemma py_ord_Inr_iff: "py_ord v = Inr c \<longleftrightarrow> v = [c]"
  by (cases v rule: py_ord.cases) auto

lemma sorted_keys_eq: "sorted_keys d = sorted_list_of_set (dom (map_of d))"
proof -
  have "sorted_list_of_set (set (map fst d)) = sort (remdups (map fst d))"
    by (rule sorted_list_of_set_sort_remdups)
  then show ?thesis
    by (simp add: sorted_keys_def dom_map_of_conv_image_fst)
qed

lemma set_sorted_keys: "set (sorted_keys d) = dom (map_of d)"
  by (simp add: sorted_keys_eq finite_dom_map_of)

lemma sorted_sorted_keys: "sorted (sorted_keys d)"
  by (simp add: sorted_keys_def)

lemma distinct_sorted_keys: "distinct (sorted_keys d)"
  by (simp add: sorted_keys_def)

lemma strict_sorted_keys: "sorted_wrt (<) (sorted_keys d)"
  using sorted_sorted_keys distinct_sorted_keys
  by (simp add: strict_sorted_iff)

lemma for_each_append:
  "for_each body (xs @ ys) s =
     (case for_each body xs s of Inl e \<Rightarrow> Inl e | Inr s' \<Rightarrow> for_each body ys s')"
  by (induction xs arbitrary: s) (auto split: sum.splits)

lemma for_each_rule_aux:
  assumes "for_each body post s = Inr s'"
    and "xs = pre @ post"
    and "I pre s"
    and "\<And>pre x post s t. xs = pre @ x # post \<Longrightarrow> I pre s \<Longrightarrow> body s x = Inr t
           \<Longrightarrow> I (pre @ [x]) t"
  shows "I xs s'"
  using assms(1-3)
proof (induction post arbitrary: pre s)
  case Nil
  then show ?case by simp
next
  case (Cons x post)
  from Cons.prems(1) obtain t where t: "body s x = Inr t" and r: "for_each body post t = Inr s'"
    by (auto split: sum.splits)
  have "I (pre @ [x]) t"
    using assms(4)[OF _ Cons.prems(3) t] Cons.prems(2) by simp
  then show ?case
    using Cons.IH[OF r, of "pre @ [x]"] Cons.prems(2) by simp
qed

lemma for_each_rule:
  assumes "for_each body xs s = Inr s'"
    and "I [] s"
    and "\<And>pre x post s t. xs = pre @ x # post \<Longrightarrow> I pre s \<Longrightarrow> body s x = Inr t
           \<Longrightarrow> I (pre @ [x]) t"
  shows "I xs s'"
proof (rule for_each_rule_aux[where I = I and pre = "[]" and xs = xs, OF assms(1)])
  show "xs = [] @ xs" by simp
  show "I [] s" by (rule assms(2))
  show "\<And>pre x post s t. xs = pre @ x # post \<Longrightarrow> I pre s \<Longrightarrow> body s x = Inr t
           \<Longrightarrow> I (pre @ [x]) t"
    by (rule assms(3))
qed

section \<open>Facts about dictionaries and loops\<close>

lemma dict_del_Inr:
  "dict_del d k = Inr d' \<longleftrightarrow> k \<in> dom (map_of d) \<and> d' = AList.delete k d"
  by (auto simp: dict_del_def dict_contains_def)

lemma dict_get_Inr: "dict_get d k = Inr v \<longleftrightarrow> map_of d k = Some v"
  by (auto simp: dict_get_def split: option.splits)

lemma map_filter_cong_set:
  "(\<And>x. x \<in> set xs \<Longrightarrow> f x = g x) \<Longrightarrow> List.map_filter f xs = List.map_filter g xs"
  by (induction xs) (auto split: option.splits)

lemma flat_bucket_append: "flat_bucket (a @ b) = flat_bucket a @ flat_bucket b"
  by (simp add: flat_bucket_def)

lemma conversions_for_each:
  assumes "distinct ks" "set ks \<subseteq> dom (map_of d)"
  shows "\<exists>d'. for_each (conversions_body n) ks (u, d) =
            Inr (u @ flat_bucket (List.map_filter (arity_entry n d) ks), d') \<and>
          map_of d' = (\<lambda>k. if k \<in> set ks \<and> arity_entry n d k \<noteq> None then None else map_of d k)"
  using assms
proof (induction ks arbitrary: u d)
  case Nil
  then show ?case by (simp add: flat_bucket_def)
next
  case (Cons k ks)
  from Cons.prems obtain v where v: "map_of d k = Some v" by auto
  show ?case
  proof (cases "length v = n")
    case False
    have ae: "arity_entry n d k = None" using v False by (simp add: arity_entry_def)
    from Cons.IH[of d u] Cons.prems obtain d' where
      d': "for_each (conversions_body n) ks (u, d) =
            Inr (u @ flat_bucket (List.map_filter (arity_entry n d) ks), d')"
      "map_of d' = (\<lambda>k. if k \<in> set ks \<and> arity_entry n d k \<noteq> None then None else map_of d k)"
      by auto
    have "for_each (conversions_body n) (k # ks) (u, d) =
            Inr (u @ flat_bucket (List.map_filter (arity_entry n d) (k # ks)), d')"
      using v False d'(1) ae by (simp add: dict_get_def)
    moreover have "map_of d' =
       (\<lambda>k'. if k' \<in> set (k # ks) \<and> arity_entry n d k' \<noteq> None then None else map_of d k')"
      using d'(2) ae by (auto simp: fun_eq_iff)
    ultimately show ?thesis by blast
  next
    case True
    let ?d1 = "AList.delete k d"
    have ae: "arity_entry n d k = Some (k, v)" using v True by (simp add: arity_entry_def)
    have same: "\<And>x. x \<in> set ks \<Longrightarrow> arity_entry n ?d1 x = arity_entry n d x"
      using Cons.prems(1) by (auto simp: arity_entry_def delete_conv')
    have sub: "set ks \<subseteq> dom (map_of ?d1)"
      using Cons.prems by (auto simp: delete_conv')
    from Cons.IH[of ?d1 "u @ k # v"] Cons.prems sub obtain d' where
      d': "for_each (conversions_body n) ks (u @ k # v, ?d1) =
            Inr ((u @ k # v) @ flat_bucket (List.map_filter (arity_entry n ?d1) ks), d')"
      "map_of d' = (\<lambda>k. if k \<in> set ks \<and> arity_entry n ?d1 k \<noteq> None then None else map_of ?d1 k)"
      by auto
    have mf: "List.map_filter (arity_entry n ?d1) ks = List.map_filter (arity_entry n d) ks"
      by (rule map_filter_cong_set) (rule same)
    have "for_each (conversions_body n) (k # ks) (u, d) =
            Inr (u @ flat_bucket (List.map_filter (arity_entry n d) (k # ks)), d')"
      using v True d'(1) ae mf
      by (simp add: dict_get_def dict_del_def dict_contains_def flat_bucket_def)
    moreover have "map_of d' =
       (\<lambda>k'. if k' \<in> set (k # ks) \<and> arity_entry n d k' \<noteq> None then None else map_of d k')"
    proof
      fix k'
      show "map_of d' k' =
        (if k' \<in> set (k # ks) \<and> arity_entry n d k' \<noteq> None then None else map_of d k')"
      proof (cases "k' = k")
        case True
        then show ?thesis using d'(2) ae Cons.prems(1) by (simp add: delete_conv')
      next
        case False
        show ?thesis
        proof (cases "k' \<in> set ks")
          case True
          then show ?thesis using d'(2) same[OF True] False by (simp add: delete_conv')
        next
          case False
          then show ?thesis using d'(2) \<open>k' \<noteq> k\<close> by (simp add: delete_conv')
        qed
      qed
    qed
    ultimately show ?thesis by blast
  qed
qed

lemma conversions_loop_result:
  "\<exists>d'. conversions_loop n d = Inr (flat_bucket (conversion_bucket n d), d') \<and>
        map_of d' = without_arity {n} d"
proof -
  from conversions_for_each[OF distinct_sorted_keys, of d d n "[]"]
  obtain d' where d': "for_each (conversions_body n) (sorted_keys d) ([], d) =
            Inr ([] @ flat_bucket (List.map_filter (arity_entry n d) (sorted_keys d)), d')"
     "map_of d' = (\<lambda>k. if k \<in> set (sorted_keys d) \<and> arity_entry n d k \<noteq> None then None
                        else map_of d k)"
    by (auto simp: set_sorted_keys)
  have "map_of d' = without_arity {n} d"
  proof
    fix k show "map_of d' k = without_arity {n} d k"
      using d'(2) by (auto simp: without_arity_def arity_entry_def set_sorted_keys
          split: option.splits)
  qed
  then show ?thesis using d'(1) by (auto simp: conversions_loop_def conversion_bucket_def)
qed


lemma sorted_keys_sub:
  assumes "dom (map_of d1) \<subseteq> dom (map_of d)"
  shows "sorted_keys d1 = filter (\<lambda>k. k \<in> dom (map_of d1)) (sorted_keys d)"
proof (rule sorted_distinct_set_unique)
  show "sorted (sorted_keys d1)" by (rule sorted_sorted_keys)
  show "distinct (sorted_keys d1)" by (rule distinct_sorted_keys)
  show "sorted (filter (\<lambda>k. k \<in> dom (map_of d1)) (sorted_keys d))"
    by (rule sorted_wrt_filter) (rule sorted_sorted_keys)
  show "distinct (filter (\<lambda>k. k \<in> dom (map_of d1)) (sorted_keys d))"
    by (simp add: distinct_sorted_keys)
  show "set (sorted_keys d1) = set (filter (\<lambda>k. k \<in> dom (map_of d1)) (sorted_keys d))"
    using assms by (auto simp: set_sorted_keys)
qed

lemma map_filter_filter_None:
  "(\<And>x. x \<in> set xs \<Longrightarrow> \<not> P x \<Longrightarrow> f x = None)
     \<Longrightarrow> List.map_filter f (filter P xs) = List.map_filter f xs"
  by (induction xs) (auto split: option.splits)

lemma in_set_map_filter:
  "y \<in> set (List.map_filter f xs) \<longleftrightarrow> (\<exists>x \<in> set xs. f x = Some y)"
  by (induction xs) (auto split: option.splits)

lemma conversion_bucket_after:
  assumes "map_of d1 = without_arity A d" "n \<notin> A"
  shows "conversion_bucket n d1 = conversion_bucket n d"
proof -
  have ae: "arity_entry n d1 = arity_entry n d"
    using assms by (auto simp: fun_eq_iff arity_entry_def without_arity_def split: option.splits)
  have sub: "dom (map_of d1) \<subseteq> dom (map_of d)"
    using assms(1) by (auto simp: without_arity_def split: option.splits if_splits)
  have "List.map_filter (arity_entry n d) (filter (\<lambda>k. k \<in> dom (map_of d1)) (sorted_keys d))
          = List.map_filter (arity_entry n d) (sorted_keys d)"
  proof (rule map_filter_filter_None)
    fix x assume "x \<notin> dom (map_of d1)"
    then show "arity_entry n d x = None"
      using ae by (auto simp: arity_entry_def fun_eq_iff split: option.splits)
  qed
  then show ?thesis
    by (simp add: conversion_bucket_def ae sorted_keys_sub[OF sub])
qed

lemma without_arity_twice:
  assumes "map_of d1 = without_arity A d" "map_of d2 = without_arity B d1"
  shows "map_of d2 = without_arity (A \<union> B) d"
  using assms by (auto simp: fun_eq_iff without_arity_def split: option.splits)

lemma length_flat_bucket:
  "list_all (\<lambda>(k, v). length v = n) b \<Longrightarrow> length (flat_bucket b) = Suc n * length b"
  by (induction b) (auto simp: flat_bucket_def)

lemma conversion_bucket_arity: "list_all (\<lambda>(k, v). length v = n) (conversion_bucket n d)"
  by (auto simp: conversion_bucket_def list_all_iff in_set_map_filter arity_entry_def
      split: option.splits if_splits)

lemma conversion_bucket_entries:
  "list_all (\<lambda>(k, v). map_of d k = Some v) (conversion_bucket n d)"
  by (auto simp: conversion_bucket_def list_all_iff in_set_map_filter arity_entry_def
      split: option.splits if_splits)

lemma map_fst_map_filter_arity:
  "map fst (List.map_filter (arity_entry n d) ks) = filter (\<lambda>k. arity_entry n d k \<noteq> None) ks"
  by (induction ks) (auto simp: arity_entry_def split: option.splits)

lemma conversion_bucket_ascending: "sorted_wrt (<) (map fst (conversion_bucket n d))"
  by (simp add: conversion_bucket_def map_fst_map_filter_arity sorted_wrt_filter
      strict_sorted_keys)

lemma find_hash_ge0: "find_hash s \<ge> 0 \<longleftrightarrow> CHR ''#'' \<in> set s"
  by (induction s) (auto simp: Let_def)

lemma blank_comments_prefix:
  "n \<le> length line \<Longrightarrow>
   for_each blank_comment_body [0..<n] line =
     Inr (map (\<lambda>field. if CHR ''#'' \<in> set field then [] else field) (take n line) @ drop n line)"
proof (induction n)
  case 0
  then show ?case by simp
next
  case (Suc n)
  let ?b = "\<lambda>field. if CHR ''#'' \<in> set field then [] else field"
  let ?mid = "map ?b (take n line) @ drop n line"
  from Suc.prems have n: "n < length line" by simp
  have at: "?mid ! n = line ! n"
    using n by (simp add: nth_append)
  have dr: "drop n line = line ! n # drop (Suc n) line"
    using n by (simp add: Cons_nth_drop_Suc)
  have upd: "?mid[n := x] = map ?b (take n line) @ x # drop (Suc n) line" for x
    using n dr by (simp add: list_update_append)
  have tk: "take (Suc n) line = take n line @ [line ! n]"
    using n by (simp add: take_Suc_conv_app_nth)
  have step: "blank_comment_body ?mid n =
      Inr (map ?b (take (Suc n) line) @ drop (Suc n) line)"
  proof (cases "CHR ''#'' \<in> set (line ! n)")
    case True
    then show ?thesis
      unfolding blank_comment_body_def at using upd[of "[]"] tk by (simp add: find_hash_ge0)
  next
    case False
    have "?mid = map ?b (take n line) @ line ! n # drop (Suc n) line"
      using dr by simp
    with False show ?thesis
      unfolding blank_comment_body_def at using tk by (simp add: find_hash_ge0)
  qed
  have "for_each blank_comment_body [0..<Suc n] line =
      (case for_each blank_comment_body [0..<n] line of Inl e \<Rightarrow> Inl e
       | Inr s' \<Rightarrow> for_each blank_comment_body [n] s')"
    by (simp add: for_each_append)
  also have "\<dots> = blank_comment_body ?mid n"
    using Suc.IH n by (simp split: sum.splits)
  finally show ?case using step by simp
qed

section \<open>The scan of extract_ranges\<close>

lemma bidirectional_iff:
  "bidirectional lc rc c \<longleftrightarrow> (\<exists>m. map_of lc c = Some [m] \<and> map_of rc m = Some [c])"
  by (auto simp: bidirectional_def split: option.splits list.splits)

lemma is_bidirectional_conversion_Inr:
  "is_bidirectional_conversion c lc rc = Inr b \<Longrightarrow> b = bidirectional lc rc c"
  unfolding is_bidirectional_conversion_def bidirectional_iff dict_contains_def dict_get_def
  by (auto split: option.splits sum.splits if_splits simp: py_ord_Inr_iff)

lemma is_bidirectional_conversion_True_iff:
  "is_bidirectional_conversion c lc rc = Inr True \<longleftrightarrow> bidirectional lc rc c"
proof
  assume "is_bidirectional_conversion c lc rc = Inr True"
  then show "bidirectional lc rc c" by (auto dest: is_bidirectional_conversion_Inr)
next
  assume "bidirectional lc rc c"
  then obtain m where "map_of lc c = Some [m]" "map_of rc m = Some [c]"
    by (auto simp: bidirectional_iff)
  then show "is_bidirectional_conversion c lc rc = Inr True"
    by (simp add: is_bidirectional_conversion_def dict_contains_def dict_get_def)
qed

lemma maps_to_Some: "maps_to lc (Some r) c m \<longleftrightarrow> map_of lc c = Some [m] \<and> map_of r m = Some [c]"
  by (simp add: maps_to_def)

lemma maps_to_None: "maps_to lc None c m \<longleftrightarrow> map_of lc c = Some [m]"
  by (simp add: maps_to_def)

lemma adjacent_iff:
  "adjacent lc rc c \<longleftrightarrow> (\<exists>pm. maps_to lc rc (c - 1) pm \<and> maps_to lc rc c (pm + 1))"
  by (auto simp: adjacent_def maps_to_def split: option.splits list.splits)

lemma calc_Inr_Some:
  "calculate_conversion_distance lc c = Inr (Some d) \<longleftrightarrow> map_of lc c = Some [c + d]"
proof (cases "map_of lc c")
  case None
  then show ?thesis by (simp add: calculate_conversion_distance_def dict_contains_def)
next
  case (Some v)
  then show ?thesis
    by (cases v rule: py_ord.cases)
       (auto simp: calculate_conversion_distance_def dict_contains_def dict_get_def)
qed

lemma calc_Inr_None:
  "calculate_conversion_distance lc c = Inr None \<longleftrightarrow>
     (case map_of lc c of None \<Rightarrow> True | Some v \<Rightarrow> length v > 1)"
proof (cases "map_of lc c")
  case None
  then show ?thesis by (simp add: calculate_conversion_distance_def dict_contains_def)
next
  case (Some v)
  then show ?thesis
    by (cases v rule: py_ord.cases)
       (auto simp: calculate_conversion_distance_def dict_contains_def dict_get_def)
qed

lemma ranges_guard_False:
  assumes "ranges_guard lc rc c p = Inr False"
  shows "\<not> (\<exists>m pm. maps_to lc rc c m \<and> maps_to lc rc p pm)"
proof (cases rc)
  case None
  with assms show ?thesis
    by (auto simp: ranges_guard_def maps_to_def dict_get_def dict_contains_def
        split: option.splits if_splits)
next
  case (Some r)
  with assms have "\<not> bidirectional lc r c \<or> \<not> bidirectional lc r p"
    by (auto simp: ranges_guard_def split: sum.splits if_splits
        dest: is_bidirectional_conversion_Inr)
  then show ?thesis using Some by (auto simp: maps_to_def bidirectional_iff)
qed

lemma ranges_guard_True:
  assumes "ranges_guard lc rc c p = Inr True"
    and "calculate_conversion_distance lc c = Inr cd"
    and "calculate_conversion_distance lc p = Inr pd"
  shows "\<exists>m pm. maps_to lc rc c m \<and> maps_to lc rc p pm \<and> cd = Some (m - c) \<and> pd = Some (pm - p)"
proof (cases rc)
  case None
  from assms(1) None obtain v pv where v: "map_of lc c = Some v" "\<not> length v > 1"
      "map_of lc p = Some pv" "\<not> length pv > 1"
    by (auto simp: ranges_guard_def dict_get_def dict_contains_def
        split: option.splits if_splits)
  from v(1,2) assms(2) obtain m where m: "v = [m]" "cd = Some (m - c)"
    by (cases v rule: py_ord.cases)
       (auto simp: calculate_conversion_distance_def dict_contains_def dict_get_def)
  from v(3,4) assms(3) obtain pm where pm: "pv = [pm]" "pd = Some (pm - p)"
    by (cases pv rule: py_ord.cases)
       (auto simp: calculate_conversion_distance_def dict_contains_def dict_get_def)
  show ?thesis using None v m pm by (auto simp: maps_to_def)
next
  case (Some r)
  with assms(1) have b: "bidirectional lc r c" "bidirectional lc r p"
    by (auto simp: ranges_guard_def split: sum.splits if_splits
        dest: is_bidirectional_conversion_Inr)
  then obtain m pm where mp: "map_of lc c = Some [m]" "map_of r m = Some [c]"
      "map_of lc p = Some [pm]" "map_of r pm = Some [p]"
    by (auto simp: bidirectional_iff)
  have "cd = Some (m - c)" "pd = Some (pm - p)"
    using assms(2,3) mp
    by (auto simp: calculate_conversion_distance_def dict_contains_def dict_get_def)
  then show ?thesis using Some mp by (auto simp: maps_to_def)
qed

lemma maps_to_unique: "maps_to lc rc c m \<Longrightarrow> maps_to lc rc c m' \<Longrightarrow> m = m'"
  by (simp add: maps_to_def)

lemma extract_ranges_body_Inr:
  assumes "extract_ranges_body lc rc st c = Inr t"
  shows "(\<not> adjacent lc rc c \<and> t = st\<lparr>in_range := False\<rparr>) \<or>
         (adjacent lc rc c \<and> in_range st \<and>
            (\<exists>ls. list_add_at (range_lengths st) (range_position st) 1 = Inr ls \<and>
                  t = st\<lparr>range_lengths := ls\<rparr>)) \<or>
         (adjacent lc rc c \<and> \<not> in_range st \<and>
            (\<exists>pm. map_of lc (c - 1) = Some [pm] \<and>
                  t = \<lparr>in_range = True, range_position = range_position st + 1,
                       ranges = ranges st @ [c - 1, pm],
                       range_lengths = range_lengths st @ [2]\<rparr>))"
proof -
  from assms obtain g where g: "ranges_guard lc rc c (c - 1) = Inr g"
    by (cases "ranges_guard lc rc c (c - 1)") (simp_all add: extract_ranges_body_def)
  show ?thesis
  proof (cases g)
    case False
    with g assms have "t = st\<lparr>in_range := False\<rparr>"
      by (simp add: extract_ranges_body_def)
    moreover have "\<not> adjacent lc rc c"
      using ranges_guard_False[of lc rc c "c - 1"] g False by (auto simp: adjacent_iff)
    ultimately show ?thesis by simp
  next
    case True
    with g assms obtain cd where cd: "calculate_conversion_distance lc c = Inr cd"
      by (cases "calculate_conversion_distance lc c") (simp_all add: extract_ranges_body_def)
    with g True assms obtain pd where pd: "calculate_conversion_distance lc (c - 1) = Inr pd"
      by (cases "calculate_conversion_distance lc (c - 1)")
         (simp_all add: extract_ranges_body_def)
    note d = cd pd
    have gt: "ranges_guard lc rc c (c - 1) = Inr True" using g True by simp
    from ranges_guard_True[OF gt d] obtain m pm where
      mp: "maps_to lc rc c m" "maps_to lc rc (c - 1) pm" "cd = Some (m - c)"
          "pd = Some (pm - (c - 1))"
      by blast
    have adj: "adjacent lc rc c \<longleftrightarrow> cd = pd"
    proof
      assume "adjacent lc rc c"
      then obtain q where "maps_to lc rc (c - 1) q" "maps_to lc rc c (q + 1)"
        by (auto simp: adjacent_iff)
      then have "q = pm" "q + 1 = m" using mp maps_to_unique by blast+
      then show "cd = pd" using mp by simp
    next
      assume "cd = pd"
      then have "m = pm + 1" using mp by simp
      then show "adjacent lc rc c" using mp by (auto simp: adjacent_iff)
    qed
    have pmv: "map_of lc (c - 1) = Some [pm]" using mp(2) by (simp add: maps_to_def)
    show ?thesis
    proof (cases "cd = pd")
      case False
      then have "t = st\<lparr>in_range := False\<rparr>"
        using assms g True d by (simp add: extract_ranges_body_def)
      then show ?thesis using adj False by simp
    next
      case eq: True
      show ?thesis
      proof (cases "in_range st")
        case True
        then show ?thesis
          using assms g \<open>g\<close> d eq adj
          by (cases "list_add_at (range_lengths st) (range_position st) 1")
             (simp_all add: extract_ranges_body_def)
      next
        case False
        then have "t = \<lparr>in_range = True, range_position = range_position st + 1,
                       ranges = ranges st @ [c - 1, pm],
                       range_lengths = range_lengths st @ [2]\<rparr>"
          using assms g \<open>g\<close> d eq pmv
          by (simp add: extract_ranges_body_def dict_get_def)
        then show ?thesis using adj eq False pmv by simp
      qed
    qed
  qed
qed

lemma range_triples_Nil: "range_triples rs [] = []"
  by (simp add: range_triples_def)

lemma length_range_triples: "length (range_triples rs ls) = length ls"
  by (simp add: range_triples_def)

lemma range_triples_snoc:
  assumes "length rs = 2 * length ls"
  shows "range_triples (rs @ [a, b]) (ls @ [n]) = range_triples rs ls @ [(a, b, n)]"
proof -
  have "map (\<lambda>i. ((rs @ [a, b]) ! (2 * i), (rs @ [a, b]) ! (2 * i + 1), (ls @ [n]) ! i))
          [0..<length ls]
        = map (\<lambda>i. (rs ! (2 * i), rs ! (2 * i + 1), ls ! i)) [0..<length ls]"
    using assms by (intro map_cong) (auto simp: nth_append)
  moreover have "(rs @ [a, b]) ! (2 * length ls) = a" "(rs @ [a, b]) ! (2 * length ls + 1) = b"
    using assms by (simp_all add: nth_append)
  ultimately show ?thesis
    by (simp add: range_triples_def)
qed

lemma range_triples_update_last:
  assumes "ls \<noteq> []"
  shows "range_triples rs (ls[length ls - 1 := v])
           = butlast (range_triples rs ls) @
             [(rs ! (2 * (length ls - 1)), rs ! (2 * (length ls - 1) + 1), v)]"
proof -
  from assms obtain k where k: "length ls = Suc k" by (cases ls) auto
  have "map (\<lambda>i. (rs ! (2 * i), rs ! (2 * i + 1), ls[k := v] ! i)) [0..<k]
        = map (\<lambda>i. (rs ! (2 * i), rs ! (2 * i + 1), ls ! i)) [0..<k]"
    by (intro map_cong) auto
  then show ?thesis
    using k by (simp add: range_triples_def butlast_conv_take take_map)
qed

lemma last_range_triples:
  assumes "ls \<noteq> []"
  shows "last (range_triples rs ls)
           = (rs ! (2 * (length ls - 1)), rs ! (2 * (length ls - 1) + 1), last ls)"
proof -
  from assms obtain k where k: "length ls = Suc k" by (cases ls) auto
  then show ?thesis
    using assms by (simp add: range_triples_def last_conv_nth)
qed

lemma list_add_at_last:
  "list_add_at ls (int (length ls) - 1) d =
     (if ls = [] then Inl IndexError else Inr (ls[length ls - 1 := last ls + d]))"
proof (cases "ls = []")
  case True
  then show ?thesis by (simp add: list_add_at_def)
next
  case False
  then have "nat (int (length ls) - 1) = length ls - 1" by simp
  with False show ?thesis
    by (simp add: list_add_at_def Let_def last_conv_nth)
qed

lemma in_set_butlast_snoc:
  "xs \<noteq> [] \<Longrightarrow> x \<in> set xs \<Longrightarrow> x \<in> set (butlast xs) \<or> x = last xs"
  by (metis append_butlast_last_id in_set_conv_decomp_first rotate1.simps(2) set_ConsD
      set_rotate1)

lemma sorted_le_last: "sorted xs \<Longrightarrow> y \<in> set xs \<Longrightarrow> y \<le> last (xs :: int list)"
  by (induction xs) auto

lemma keys_before:
  assumes "sorted_keys lc = pre @ x # post"
  shows "\<forall>y \<in> set pre. y < x" and "\<And>k. k \<in> dom (map_of lc) \<Longrightarrow> k < x \<Longrightarrow> k \<in> set pre"
proof -
  have ss: "sorted_wrt (<) (pre @ x # post)"
    using strict_sorted_keys[of lc] assms by simp
  then show "\<forall>y \<in> set pre. y < x"
    by (auto simp: sorted_wrt_append)
  fix k assume k: "k \<in> dom (map_of lc)" "k < x"
  then have "k \<in> set (pre @ x # post)"
    using set_sorted_keys[of lc] assms by simp
  moreover have "\<forall>y \<in> set post. x < y"
    using ss by (auto simp: sorted_wrt_append)
  ultimately show "k \<in> set pre" using k(2) by auto
qed

lemma pred_is_last:
  assumes "sorted_keys lc = pre @ x # post" and "x - 1 \<in> dom (map_of lc)"
  shows "pre \<noteq> [] \<and> last pre = x - 1"
proof -
  have in_pre: "x - 1 \<in> set pre"
    using keys_before(2)[OF assms(1), of "x - 1"] assms(2) by simp
  then have ne: "pre \<noteq> []" by auto
  have "sorted pre"
    using sorted_sorted_keys[of lc] assms(1) by (simp add: sorted_append)
  then have "x - 1 \<le> last pre" using in_pre by (rule sorted_le_last)
  moreover have "last pre < x"
    using keys_before(1)[OF assms(1)] ne by simp
  ultimately show ?thesis using ne by simp
qed

lemma ranges_inv_step:
  assumes keys: "sorted_keys lc = pre @ x # post"
    and inv: "ranges_inv lc rc pre st"
    and body: "extract_ranges_body lc rc st x = Inr t"
  shows "ranges_inv lc rc (pre @ [x]) t"
proof -
  let ?T = "range_triples (ranges st) (range_lengths st)"
  from inv have I1: "length (ranges st) = 2 * length (range_lengths st)"
    and I2: "range_position st = int (length (range_lengths st)) - 1"
    and I3: "\<And>s m n. (s, m, n) \<in> set ?T \<Longrightarrow>
               2 \<le> n \<and> (\<forall>j. 0 \<le> j \<and> j < n \<longrightarrow> maps_to lc rc (s + j) (m + j) \<and> s + j \<in> set pre)"
    and I4: "in_range st \<Longrightarrow> range_lengths st \<noteq> [] \<and> pre \<noteq> [] \<and>
               (\<exists>s m n. last ?T = (s, m, n) \<and> s + n - 1 = last pre)"
    and I5: "\<And>c. c \<in> set pre \<Longrightarrow> adjacent lc rc c \<Longrightarrow>
               \<exists>s m n. (s, m, n) \<in> set ?T \<and> s < c \<and> c < s + n"
    unfolding ranges_inv_def by blast+
  consider
    (skip) "\<not> adjacent lc rc x" "t = st\<lparr>in_range := False\<rparr>"
  | (extend) ls where "adjacent lc rc x" "in_range st"
      "list_add_at (range_lengths st) (range_position st) 1 = Inr ls"
      "t = st\<lparr>range_lengths := ls\<rparr>"
  | (fresh) pm where "adjacent lc rc x" "\<not> in_range st" "map_of lc (x - 1) = Some [pm]"
      "t = \<lparr>in_range = True, range_position = range_position st + 1,
            ranges = ranges st @ [x - 1, pm], range_lengths = range_lengths st @ [2]\<rparr>"
    using extract_ranges_body_Inr[OF body] by blast
  then show ?thesis
  proof cases
    case skip
    have "\<And>c. c \<in> set (pre @ [x]) \<Longrightarrow> adjacent lc rc c \<Longrightarrow>
               \<exists>s m n. (s, m, n) \<in> set ?T \<and> s < c \<and> c < s + n"
      using I5 skip(1) by auto
    then show ?thesis
      unfolding ranges_inv_def using skip(2) I1 I2 I3 by auto
  next
    case extend
    from I4[OF extend(2)] obtain s m n where ne: "range_lengths st \<noteq> []" "pre \<noteq> []"
      and lastT: "last ?T = (s, m, n)" and ends: "s + n - 1 = last pre"
      by blast
    have Tne: "?T \<noteq> []" using ne(1) length_range_triples[of "ranges st" "range_lengths st"]
      by auto
    have inT: "(s, m, n) \<in> set ?T" using lastT Tne last_in_set by metis
    have n: "n = last (range_lengths st)"
      and sm: "s = ranges st ! (2 * (length (range_lengths st) - 1))"
              "m = ranges st ! (2 * (length (range_lengths st) - 1) + 1)"
      using lastT last_range_triples[OF ne(1), of "ranges st"] by simp_all
    have ls: "ls = (range_lengths st)[length (range_lengths st) - 1 := n + 1]"
      using extend(3) I2 ne(1) n by (simp add: list_add_at_last)
    have T': "range_triples (ranges t) (range_lengths t) = butlast ?T @ [(s, m, n + 1)]"
      using extend(4) ls sm range_triples_update_last[OF ne(1), of "ranges st" "n + 1"]
      by simp
    from extend(1) obtain pm where pm: "maps_to lc rc (x - 1) pm" "maps_to lc rc x (pm + 1)"
      by (auto simp: adjacent_iff)
    then have "x - 1 \<in> dom (map_of lc)" by (auto simp: maps_to_def)
    from pred_is_last[OF keys this] ends have sx: "s + n = x" by simp
    from I3[OF inT] have n2: "2 \<le> n"
      and old: "\<And>j. 0 \<le> j \<Longrightarrow> j < n \<Longrightarrow> maps_to lc rc (s + j) (m + j) \<and> s + j \<in> set pre"
      by blast+
    from old[of "n - 1"] n2 sx have "maps_to lc rc (x - 1) (m + (n - 1))"
      by (simp add: algebra_simps)
    with pm(1) have "pm = m + (n - 1)" by (rule maps_to_unique)
    with pm(2) sx have new: "maps_to lc rc (s + n) (m + n)" by simp
    have C3: "2 \<le> n' \<and> (\<forall>j. 0 \<le> j \<and> j < n' \<longrightarrow>
                 maps_to lc rc (s' + j) (m' + j) \<and> s' + j \<in> set (pre @ [x]))"
      if "(s', m', n') \<in> set (butlast ?T @ [(s, m, n + 1)])" for s' m' n'
    proof (cases "(s', m', n') = (s, m, n + 1)")
      case True
      have "maps_to lc rc (s + j) (m + j) \<and> s + j \<in> set (pre @ [x])"
        if "0 \<le> j" "j < n + 1" for j
      proof (cases "j = n")
        case True
        then show ?thesis using new sx by simp
      next
        case False
        then show ?thesis using old[of j] that by simp
      qed
      then show ?thesis using True n2 by simp
    next
      case False
      with that have "(s', m', n') \<in> set (butlast ?T)" by auto
      then have "(s', m', n') \<in> set ?T" by (rule in_set_butlastD)
      from I3[OF this] show ?thesis by simp
    qed
    have C5: "\<exists>s' m' n'. (s', m', n') \<in> set (butlast ?T @ [(s, m, n + 1)]) \<and> s' < c \<and> c < s' + n'"
      if "c \<in> set (pre @ [x])" "adjacent lc rc c" for c
    proof (cases "c = x")
      case True
      then show ?thesis using sx n2
        by (intro exI[of _ s] exI[of _ m] exI[of _ "n + 1"]) auto
    next
      case False
      with that have "c \<in> set pre" by simp
      from I5[OF this that(2)] obtain s' m' n' where
        h: "(s', m', n') \<in> set ?T" "s' < c" "c < s' + n'" by blast
      from in_set_butlast_snoc[OF Tne h(1)] show ?thesis
      proof
        assume "(s', m', n') \<in> set (butlast ?T)"
        then show ?thesis using h by auto
      next
        assume "(s', m', n') = last ?T"
        then have "s' = s" "n' = n" using lastT by simp_all
        then show ?thesis using h
          by (intro exI[of _ s] exI[of _ m] exI[of _ "n + 1"]) auto
      qed
    qed
    have C4: "range_lengths t \<noteq> []" "last (butlast ?T @ [(s, m, n + 1)]) = (s, m, n + 1)"
      "s + (n + 1) - 1 = last (pre @ [x])"
      using extend(4) ls ne(1) sx by simp_all
    have C1: "length (ranges t) = 2 * length (range_lengths t)"
      "range_position t = int (length (range_lengths t)) - 1" "in_range t"
      using extend(2,4) ls I1 I2 by simp_all
    show ?thesis
      unfolding ranges_inv_def T' using C1 C3 C4 C5 by blast
  next
    case fresh
    have T': "range_triples (ranges t) (range_lengths t) = ?T @ [(x - 1, pm, 2)]"
      using fresh(4) range_triples_snoc[OF I1] by simp
    from fresh(1) obtain q where q: "maps_to lc rc (x - 1) q" "maps_to lc rc x (q + 1)"
      by (auto simp: adjacent_iff)
    with fresh(3) have qpm: "q = pm" by (simp add: maps_to_def)
    have "x - 1 \<in> dom (map_of lc)" using fresh(3) by auto
    then have xpre: "x - 1 \<in> set pre"
      using keys_before(2)[OF keys, of "x - 1"] by simp
    have C3: "2 \<le> n' \<and> (\<forall>j. 0 \<le> j \<and> j < n' \<longrightarrow>
                 maps_to lc rc (s' + j) (m' + j) \<and> s' + j \<in> set (pre @ [x]))"
      if "(s', m', n') \<in> set (?T @ [(x - 1, pm, 2)])" for s' m' n'
    proof (cases "(s', m', n') \<in> set ?T")
      case True
      from I3[OF this] show ?thesis by simp
    next
      case False
      with that have e: "s' = x - 1" "m' = pm" "n' = 2" by simp_all
      have "maps_to lc rc (x - 1 + j) (pm + j) \<and> x - 1 + j \<in> set (pre @ [x])"
        if "0 \<le> j" "j < 2" for j
      proof -
        from that have "j = 0 \<or> j = 1" by auto
        then show ?thesis using q qpm xpre by auto
      qed
      then show ?thesis using e by simp
    qed
    have C5: "\<exists>s' m' n'. (s', m', n') \<in> set (?T @ [(x - 1, pm, 2)]) \<and> s' < c \<and> c < s' + n'"
      if "c \<in> set (pre @ [x])" "adjacent lc rc c" for c
    proof (cases "c = x")
      case True
      then show ?thesis
        by (intro exI[of _ "x - 1"] exI[of _ pm] exI[of _ 2]) auto
    next
      case False
      with that have "c \<in> set pre" by simp
      from I5[OF this that(2)] show ?thesis by auto
    qed
    have C4: "range_lengths t \<noteq> []" "last (?T @ [(x - 1, pm, 2)]) = (x - 1, pm, 2)"
      "x - 1 + 2 - 1 = last (pre @ [x])"
      using fresh(4) by simp_all
    have C1: "length (ranges t) = 2 * length (range_lengths t)"
      "range_position t = int (length (range_lengths t)) - 1"
      using fresh(4) I1 I2 by simp_all
    show ?thesis
      unfolding ranges_inv_def T' using C1 C3 C4 C5 by blast
  qed
qed

lemma ranges_inv_init:
  "ranges_inv lc rc [] \<lparr>in_range = False, range_position = - 1, ranges = [], range_lengths = []\<rparr>"
  by (simp add: ranges_inv_def range_triples_Nil)

lemma ranges_scan_inv:
  assumes "for_each (extract_ranges_body lc rc) (sorted_keys lc)
             \<lparr>in_range = False, range_position = - 1, ranges = [], range_lengths = []\<rparr> = Inr st"
  shows "ranges_inv lc rc (sorted_keys lc) st"
  by (rule for_each_rule[where I = "ranges_inv lc rc", OF assms ranges_inv_init])
     (rule ranges_inv_step)

lemma range_triples_nth:
  "i < length ls \<Longrightarrow> (rs ! (2 * i), rs ! (2 * i + 1), ls ! i) \<in> set (range_triples rs ls)"
  by (auto simp: range_triples_def)

lemma range_triples_elem:
  "(s, m, n) \<in> set (range_triples rs ls) \<Longrightarrow>
     \<exists>i < length ls. s = rs ! (2 * i) \<and> m = rs ! (2 * i + 1) \<and> n = ls ! i"
  by (auto simp: range_triples_def)

lemma extract_ranges_scan:
  assumes "extract_ranges lc rc = Inr ((rs, ls), lc', rc')"
  shows "\<exists>st. for_each (extract_ranges_body lc rc) (sorted_keys lc)
             \<lparr>in_range = False, range_position = - 1, ranges = [], range_lengths = []\<rparr> = Inr st
           \<and> ranges st = rs \<and> range_lengths st = ls
           \<and> for_each (remove_ranges_body rs ls) (py_range_step (int (length rs)) 2) (lc, rc)
               = Inr (lc', rc')"
  using assms by (auto simp: extract_ranges_def split: sum.splits)

lemma extract_ranges_inv:
  assumes "extract_ranges lc rc = Inr ((rs, ls), lc', rc')"
  shows "length rs = 2 * length ls"
    and "\<And>s m n. (s, m, n) \<in> set (range_triples rs ls) \<Longrightarrow>
           2 \<le> n \<and> (\<forall>j. 0 \<le> j \<and> j < n \<longrightarrow> maps_to lc rc (s + j) (m + j))"
    and "\<And>c. adjacent lc rc c \<Longrightarrow>
           \<exists>s m n. (s, m, n) \<in> set (range_triples rs ls) \<and> s < c \<and> c < s + n"
proof -
  from extract_ranges_scan[OF assms] obtain st where
    st: "for_each (extract_ranges_body lc rc) (sorted_keys lc)
             \<lparr>in_range = False, range_position = - 1, ranges = [], range_lengths = []\<rparr> = Inr st"
      "ranges st = rs" "range_lengths st = ls"
    by blast
  note inv = ranges_scan_inv[OF st(1), unfolded ranges_inv_def st(2,3)]
  from inv show "length rs = 2 * length ls" by blast
  from inv show "\<And>s m n. (s, m, n) \<in> set (range_triples rs ls) \<Longrightarrow>
           2 \<le> n \<and> (\<forall>j. 0 \<le> j \<and> j < n \<longrightarrow> maps_to lc rc (s + j) (m + j))" by blast
  fix c assume a: "adjacent lc rc c"
  then have "c \<in> dom (map_of lc)" by (auto simp: adjacent_iff maps_to_def)
  then have "c \<in> set (sorted_keys lc)" by (simp add: set_sorted_keys)
  with inv a show "\<exists>s m n. (s, m, n) \<in> set (range_triples rs ls) \<and> s < c \<and> c < s + n"
    by blast
qed

section \<open>Removal loops and the scan of extract_character_pair_ranges\<close>

lemma removed_Nil: "removed d [] d"
  by (simp add: removed_def)

lemma removed_del: "dict_del d k = Inr d' \<Longrightarrow> removed d [k] d'"
  by (auto simp: removed_def dict_del_def dict_contains_def delete_conv' fun_eq_iff
      split: if_splits)

lemma removed_trans:
  assumes "removed d ks d1" "removed d1 ks' d2"
  shows "removed d (ks @ ks') d2"
proof -
  from assms have dis: "distinct ks" "distinct ks'" and
    sub: "set ks \<subseteq> dom (map_of d)" "set ks' \<subseteq> dom (map_of d1)" and
    m1: "map_of d1 = (\<lambda>k. if k \<in> set ks then None else map_of d k)" and
    m2: "map_of d2 = (\<lambda>k. if k \<in> set ks' then None else map_of d1 k)"
    by (simp_all add: removed_def)
  have disj: "set ks \<inter> set ks' = {}"
    using sub(2) m1 by (auto simp: dom_def)
  have sub2: "set ks' \<subseteq> dom (map_of d)"
    using sub(2) m1 by (auto simp: dom_def split: if_splits)
  have "map_of d2 = (\<lambda>k. if k \<in> set (ks @ ks') then None else map_of d k)"
    using m1 m2 by (auto simp: fun_eq_iff)
  then show ?thesis
    using dis disj sub(1) sub2 by (simp add: removed_def)
qed

lemma removed_dom: "removed d ks d' \<Longrightarrow> dom (map_of d') = dom (map_of d) - set ks"
  by (auto simp: removed_def dom_def)

lemma removed_lookup:
  "removed d ks d' \<Longrightarrow> map_of d' k = Some v \<Longrightarrow> map_of d k = Some v"
  by (auto simp: removed_def split: if_splits)

lemma for_each_removed:
  assumes "for_each body xs s = Inr s'" and "P s"
    and "\<And>s x t. x \<in> set xs \<Longrightarrow> P s \<Longrightarrow> body s x = Inr t
            \<Longrightarrow> removed (proj s) (f x) (proj t) \<and> P t"
  shows "removed (proj s) (concat (map f xs)) (proj s') \<and> P s'"
  using assms
proof (induction xs arbitrary: s)
  case Nil
  then show ?case by (simp add: removed_Nil)
next
  case (Cons x xs)
  from Cons.prems(1) obtain t where t: "body s x = Inr t" "for_each body xs t = Inr s'"
    by (auto split: sum.splits)
  have 1: "removed (proj s) (f x) (proj t) \<and> P t"
    using Cons.prems(3)[OF _ Cons.prems(2) t(1)] by simp
  have step: "removed (proj s0) (f y) (proj t') \<and> P t'"
    if "y \<in> set xs" "P s0" "body s0 y = Inr t'" for s0 y t'
    using Cons.prems(3)[of y s0 t'] that by simp
  have 2: "removed (proj t) (concat (map f xs)) (proj s') \<and> P s'"
    using Cons.IH[OF t(2)] 1 step by blast
  show ?case using removed_trans[of "proj s" "f x" "proj t"] 1 2 by simp
qed

lemma for_each_preserves:
  assumes "for_each body xs s = Inr s'" and "P s"
    and "\<And>s x t. x \<in> set xs \<Longrightarrow> P s \<Longrightarrow> body s x = Inr t \<Longrightarrow> P t"
  shows "P s'"
  using assms
proof (induction xs arbitrary: s)
  case Nil
  then show ?case by simp
next
  case (Cons x xs)
  from Cons.prems(1) obtain t where t: "body s x = Inr t" "for_each body xs t = Inr s'"
    by (auto split: sum.splits)
  have "P t" using Cons.prems(3)[OF _ Cons.prems(2) t(1)] by simp
  moreover have "P t'" if "y \<in> set xs" "P s0" "body s0 y = Inr t'" for s0 y t'
    using Cons.prems(3)[of y s0 t'] that by simp
  ultimately show ?case using Cons.IH[OF t(2)] by blast
qed

lemma list_get_nat: "list_get xs (int i) = Inr v \<Longrightarrow> i < length xs \<and> v = xs ! i"
  by (auto simp: list_get_def Let_def split: if_splits)

lemma py_range_step_2: "py_range_step (int (2 * n)) 2 = map (\<lambda>i. int (i * 2)) [0..<n]"
proof -
  have "(nat (int (2 * n)) + 2 - 1) div 2 = n" by simp
  then show ?thesis unfolding py_range_step_def by simp
qed

lemma py_range_step_3: "py_range_step (int (3 * n)) 3 = map (\<lambda>i. int (i * 3)) [0..<n]"
proof -
  have "(nat (int (3 * n)) + 3 - 1) div 3 = n" by simp
  then show ?thesis unfolding py_range_step_def by simp
qed

lemma py_range_int: "py_range (int n) = map int [0..<n]"
  by (simp add: py_range_def)

lemma remove_range_body_lower:
  assumes "remove_range_body rs (int (2 * i)) (lc, rc) j = Inr (lc', rc')"
  shows "removed lc [rs ! (2 * i) + j] lc'"
proof -
  from assms obtain start where s: "list_get rs (int (2 * i)) = Inr start"
    by (cases "list_get rs (int (2 * i))") simp_all
  from list_get_nat[OF s] have st: "start = rs ! (2 * i)" by simp
  from assms s obtain l1 where l1: "dict_del lc (start + j) = Inr l1"
    by (cases "dict_del lc (start + j)") simp_all
  have "lc' = l1"
    using assms s l1 by (auto split: option.splits sum.splits)
  then show ?thesis using removed_del[OF l1] st by simp
qed

lemma remove_range_body_upper:
  assumes "remove_range_body rs (int (2 * i)) (lc, Some r) j = Inr (lc', rc')"
  shows "\<exists>r'. rc' = Some r' \<and> removed r [rs ! (2 * i + 1) + j] r'"
proof -
  from assms obtain start where s: "list_get rs (int (2 * i)) = Inr start"
    by (cases "list_get rs (int (2 * i))") simp_all
  from assms s obtain l1 where l1: "dict_del lc (start + j) = Inr l1"
    by (cases "dict_del lc (start + j)") simp_all
  from assms s l1 obtain m where m: "list_get rs (int (2 * i) + 1) = Inr m"
    by (cases "list_get rs (int (2 * i) + 1)") simp_all
  have "int (2 * i) + 1 = int (2 * i + 1)" by simp
  with m have "list_get rs (int (2 * i + 1)) = Inr m" by metis
  from list_get_nat[OF this] have mv: "m = rs ! (2 * i + 1)" by simp
  from assms s l1 m obtain r1 where r1: "dict_del r (m + j) = Inr r1"
    by (cases "dict_del r (m + j)") simp_all
  have "rc' = Some r1" using assms s l1 m r1 by simp
  then show ?thesis using removed_del[OF r1] mv by simp
qed

lemma remove_range_body_None:
  assumes "remove_range_body rs idx (lc, None) j = Inr (lc', rc')"
  shows "rc' = None"
  using assms by (auto split: sum.splits)

lemma concat_map_single: "concat (map (\<lambda>j. [g j]) js) = map g js"
  by (induction js) auto

lemma remove_range_inner:
  assumes "for_each (remove_range_body rs (int (2 * i))) js (lc, rc) = Inr (lc', rc')"
  shows "removed lc (map (\<lambda>j. rs ! (2 * i) + j) js) lc'"
    and "rc = None \<Longrightarrow> rc' = None"
    and "\<And>r. rc = Some r \<Longrightarrow>
           \<exists>r'. rc' = Some r' \<and> removed r (map (\<lambda>j. rs ! (2 * i + 1) + j) js) r'"
proof -
  have "removed (fst (lc, rc)) (concat (map (\<lambda>j. [rs ! (2 * i) + j]) js)) (fst (lc', rc')) \<and> True"
  proof (rule for_each_removed[OF assms, where P = "\<lambda>_. True"])
    fix s :: "dict \<times> dict option" and x t
    assume h: "remove_range_body rs (int (2 * i)) s x = Inr t"
    obtain a b where s: "s = (a, b)" by (cases s)
    obtain a' b' where t: "t = (a', b')" by (cases t)
    from h have "remove_range_body rs (int (2 * i)) (a, b) x = Inr (a', b')" unfolding s t .
    from remove_range_body_lower[OF this]
    show "removed (fst s) [rs ! (2 * i) + x] (fst t) \<and> True" unfolding s t by simp
  qed simp
  then show "removed lc (map (\<lambda>j. rs ! (2 * i) + j) js) lc'"
    by (simp add: concat_map_single)
  show "rc' = None" if "rc = None"
  proof -
    have "snd (lc', rc') = None"
    proof (rule for_each_preserves[OF assms, where P = "\<lambda>s. snd s = None"])
      show "snd (lc, rc) = None" using that by simp
      fix s :: "dict \<times> dict option" and x t
      assume h: "snd s = None" "remove_range_body rs (int (2 * i)) s x = Inr t"
      obtain a b where s: "s = (a, b)" by (cases s)
      obtain a' b' where t: "t = (a', b')" by (cases t)
      from h have "remove_range_body rs (int (2 * i)) (a, None) x = Inr (a', b')"
        unfolding s t by simp
      from remove_range_body_None[OF this] show "snd t = None" unfolding t by simp
    qed
    then show ?thesis by simp
  qed
  show "\<exists>r'. rc' = Some r' \<and> removed r (map (\<lambda>j. rs ! (2 * i + 1) + j) js) r'"
    if "rc = Some r" for r
  proof -
    let ?proj = "\<lambda>s :: dict \<times> dict option. after_call [] (snd s)"
    have "removed (?proj (lc, rc)) (concat (map (\<lambda>j. [rs ! (2 * i + 1) + j]) js))
            (?proj (lc', rc')) \<and> snd (lc', rc') \<noteq> None"
    proof (rule for_each_removed[OF assms, where P = "\<lambda>s. snd s \<noteq> None"])
      show "snd (lc, rc) \<noteq> None" using that by simp
      fix s :: "dict \<times> dict option" and x t
      assume a: "snd s \<noteq> None" "remove_range_body rs (int (2 * i)) s x = Inr t"
      then obtain a0 r0 where s: "s = (a0, Some r0)" by (cases s) auto
      obtain a1 r1 where t: "t = (a1, r1)" by (cases t)
      from a(2) have "remove_range_body rs (int (2 * i)) (a0, Some r0) x = Inr (a1, r1)"
        unfolding s t .
      from remove_range_body_upper[OF this]
      show "removed (?proj s) [rs ! (2 * i + 1) + x] (?proj t) \<and> snd t \<noteq> None"
        unfolding s t by (auto simp: after_call_def)
    qed
    then show ?thesis using that
      by (cases rc') (auto simp: after_call_def concat_map_single)
  qed
qed

lemma remove_ranges_body_step:
  assumes "remove_ranges_body rs ls (lc, rc) (int (i * 2)) = Inr (lc', rc')"
  shows "removed lc (map (\<lambda>j. rs ! (2 * i) + j) (py_range (ls ! i))) lc'"
    and "rc = None \<Longrightarrow> rc' = None"
    and "\<And>r. rc = Some r \<Longrightarrow>
           \<exists>r'. rc' = Some r' \<and> removed r (map (\<lambda>j. rs ! (2 * i + 1) + j) (py_range (ls ! i))) r'"
proof -
  have d: "int (i * 2) div 2 = int i" by simp
  from assms obtain n where n: "list_get ls (int i) = Inr n"
    by (cases "list_get ls (int i)") (simp_all add: remove_ranges_body_def d)
  from list_get_nat[OF n] have nv: "n = ls ! i" by simp
  have run: "for_each (remove_range_body rs (int (2 * i))) (py_range (ls ! i)) (lc, rc)
               = Inr (lc', rc')"
    using assms n nv by (simp add: remove_ranges_body_def d mult.commute)
  show "removed lc (map (\<lambda>j. rs ! (2 * i) + j) (py_range (ls ! i))) lc'"
    by (rule remove_range_inner(1)[OF run])
  show "rc = None \<Longrightarrow> rc' = None"
    by (rule remove_range_inner(2)[OF run])
  show "\<And>r. rc = Some r \<Longrightarrow>
           \<exists>r'. rc' = Some r' \<and> removed r (map (\<lambda>j. rs ! (2 * i + 1) + j) (py_range (ls ! i))) r'"
    by (rule remove_range_inner(3)[OF run])
qed

lemma remove_ranges_outer:
  assumes "for_each (remove_ranges_body rs ls) (map (\<lambda>i. int (i * 2)) is) (lc, rc) = Inr (lc', rc')"
  shows "removed lc (concat (map (\<lambda>i. map (\<lambda>j. rs ! (2 * i) + j) (py_range (ls ! i))) is)) lc'"
    and "rc = None \<Longrightarrow> rc' = None"
    and "\<And>r. rc = Some r \<Longrightarrow>
           \<exists>r'. rc' = Some r' \<and>
             removed r (concat (map (\<lambda>i. map (\<lambda>j. rs ! (2 * i + 1) + j) (py_range (ls ! i))) is)) r'"
  using assms
proof (induction "is" arbitrary: lc rc)
  case Nil
  { case 1 then show ?case by (simp add: removed_Nil) }
  { case 2 then show ?case by simp }
  { case 3 then show ?case by (auto simp: removed_Nil) }
next
  case (Cons i "is")
  { case 1
    then obtain l1 r1 where
      a: "remove_ranges_body rs ls (lc, rc) (int (i * 2)) = Inr (l1, r1)"
         "for_each (remove_ranges_body rs ls) (map (\<lambda>i. int (i * 2)) is) (l1, r1) = Inr (lc', rc')"
      by (auto split: sum.splits)
    from removed_trans[OF remove_ranges_body_step(1)[OF a(1)] Cons.IH(1)[OF a(2)]]
    show ?case by simp }
  { case 2
    then obtain l1 r1 where
      a: "remove_ranges_body rs ls (lc, rc) (int (i * 2)) = Inr (l1, r1)"
         "for_each (remove_ranges_body rs ls) (map (\<lambda>i. int (i * 2)) is) (l1, r1) = Inr (lc', rc')"
      by (auto split: sum.splits)
    from remove_ranges_body_step(2)[OF a(1) 2(1)] have "r1 = None" .
    from Cons.IH(2)[OF this a(2)] show ?case . }
  { case (3 r)
    then obtain l1 r1 where
      a: "remove_ranges_body rs ls (lc, rc) (int (i * 2)) = Inr (l1, r1)"
         "for_each (remove_ranges_body rs ls) (map (\<lambda>i. int (i * 2)) is) (l1, r1) = Inr (lc', rc')"
      by (auto split: sum.splits)
    from remove_ranges_body_step(3)[OF a(1) 3(1)] obtain r2 where
      r2: "r1 = Some r2" "removed r (map (\<lambda>j. rs ! (2 * i + 1) + j) (py_range (ls ! i))) r2"
      by blast
    from Cons.IH(3)[OF r2(1) a(2)] obtain r' where
      r': "rc' = Some r'"
          "removed r2 (concat (map (\<lambda>i. map (\<lambda>j. rs ! (2 * i + 1) + j) (py_range (ls ! i))) is)) r'"
      by blast
    from removed_trans[OF r2(2) r'(2)] r'(1) show ?case by simp }
qed

lemma extract_ranges_removed:
  assumes "extract_ranges lc rc = Inr ((rs, ls), lc', rc')"
  shows "removed lc (range_domain (rs, ls)) lc'"
    and "rc = None \<Longrightarrow> rc' = None"
    and "\<And>r. rc = Some r \<Longrightarrow> \<exists>r'. rc' = Some r' \<and> removed r (range_codomain (rs, ls)) r'"
proof -
  from extract_ranges_scan[OF assms] have
    run: "for_each (remove_ranges_body rs ls) (py_range_step (int (length rs)) 2) (lc, rc)
            = Inr (lc', rc')"
    by blast
  have len: "length rs = 2 * length ls" by (rule extract_ranges_inv(1)[OF assms])
  have run': "for_each (remove_ranges_body rs ls) (map (\<lambda>i. int (i * 2)) [0..<length ls]) (lc, rc)
            = Inr (lc', rc')"
    using run len py_range_step_2[of "length ls"] by simp
  show "removed lc (range_domain (rs, ls)) lc'"
    using remove_ranges_outer(1)[OF run'] by (simp add: range_domain_def)
  show "rc = None \<Longrightarrow> rc' = None"
    by (rule remove_ranges_outer(2)[OF run'])
  show "\<And>r. rc = Some r \<Longrightarrow> \<exists>r'. rc' = Some r' \<and> removed r (range_codomain (rs, ls)) r'"
    using remove_ranges_outer(3)[OF run'] by (simp add: range_codomain_def)
qed

lemma bidirectional_maps_to: "bidirectional lc rc c \<longleftrightarrow> (\<exists>m. maps_to lc (Some rc) c m)"
  by (simp add: bidirectional_iff maps_to_def)

lemma pair_ranges_body_Inr:
  assumes "pair_ranges_body lc rc st c = Inr t"
  shows "(\<not> swap_member lc rc c \<and> t = st\<lparr>pr_in_range := False\<rparr>) \<or>
         (swap_member lc rc c \<and> bidirectional lc rc (c - 2) \<and> pr_in_range st \<and>
            (\<exists>ls. list_add_at (lengths st) (element_counter st) 2 = Inr ls \<and>
                  t = st\<lparr>pr_in_range := True, lengths := ls\<rparr>)) \<or>
         (swap_member lc rc c \<and> \<not> (bidirectional lc rc (c - 2) \<and> pr_in_range st) \<and>
            t = \<lparr>pr_in_range = True, element_counter = element_counter st + 1,
                 start_points = start_points st @ [c], lengths = lengths st @ [2]\<rparr>)"
proof -
  from assms obtain b where b: "is_bidirectional_conversion c lc rc = Inr b"
    by (cases "is_bidirectional_conversion c lc rc") (simp_all add: pair_ranges_body_def)
  from is_bidirectional_conversion_Inr[OF b] have bv: "b = bidirectional lc rc c" .
  show ?thesis
  proof (cases b)
    case False
    then have "t = st\<lparr>pr_in_range := False\<rparr>"
      using assms b by (simp add: pair_ranges_body_def)
    moreover have "\<not> swap_member lc rc c"
      using False bv by (auto simp: swap_member_def bidirectional_maps_to)
    ultimately show ?thesis by simp
  next
    case True
    with bv obtain m where m: "map_of lc c = Some [m]" "map_of rc m = Some [c]"
      by (auto simp: bidirectional_iff)
    have sw: "swap_member lc rc c \<longleftrightarrow> m = c + 1"
      using m by (auto simp: swap_member_def maps_to_def)
    show ?thesis
    proof (cases "m = c + 1")
      case False
      then have "t = st\<lparr>pr_in_range := False\<rparr>"
        using assms b True m by (simp add: pair_ranges_body_def dict_get_def)
      then show ?thesis using sw False by simp
    next
      case eq: True
      from assms b True m eq obtain pb where
        pb: "is_bidirectional_conversion (c - 2) lc rc = Inr pb"
        by (cases "is_bidirectional_conversion (c - 2) lc rc")
           (simp_all add: pair_ranges_body_def dict_get_def)
      from is_bidirectional_conversion_Inr[OF pb] have pbv: "pb = bidirectional lc rc (c - 2)" .
      show ?thesis
      proof (cases "pb \<and> pr_in_range st")
        case True
        then have cond: "(if \<not> pb then False else pr_in_range st) = True" by auto
        show ?thesis
          using assms b \<open>b\<close> m eq pb pbv sw True
          by (cases "list_add_at (lengths st) (element_counter st) 2")
             (simp_all add: pair_ranges_body_def dict_get_def cond)
      next
        case False
        then have cond: "(if \<not> pb then False else pr_in_range st) = False" by auto
        have "t = \<lparr>pr_in_range = True, element_counter = element_counter st + 1,
                 start_points = start_points st @ [c], lengths = lengths st @ [2]\<rparr>"
          using assms b \<open>b\<close> m eq pb
          by (simp add: pair_ranges_body_def dict_get_def cond)
        then show ?thesis using sw eq False pbv by simp
      qed
    qed
  qed
qed

lemma set_update_last:
  assumes "ls \<noteq> []" "x \<in> set (ls[length ls - 1 := v])"
  shows "x = v \<or> x \<in> set ls"
  using assms by (metis in_set_conv_nth length_list_update nth_list_update_eq
      nth_list_update_neq nth_mem)

lemma pair_inv_step:
  assumes inv: "pair_inv lc rc pre st"
    and body: "pair_ranges_body lc rc st x = Inr t"
  shows "pair_inv lc rc (pre @ [x]) t"
proof -
  from inv have I1: "length (lengths st) = length (start_points st)"
    and I2: "element_counter st = int (length (lengths st)) - 1"
    and I3: "\<And>n. n \<in> set (lengths st) \<Longrightarrow> 2 \<le> n \<and> even n"
    and I4: "set (start_points st) \<subseteq> set pre"
    and I5: "\<And>c. c \<in> set pre \<Longrightarrow> swap_member lc rc c \<Longrightarrow> \<not> bidirectional lc rc (c - 2)
               \<Longrightarrow> c \<in> set (start_points st)"
    unfolding pair_inv_def by blast+
  consider
    (skip) "\<not> swap_member lc rc x" "t = st\<lparr>pr_in_range := False\<rparr>"
  | (extend) ls where "swap_member lc rc x" "bidirectional lc rc (x - 2)" "pr_in_range st"
      "list_add_at (lengths st) (element_counter st) 2 = Inr ls"
      "t = st\<lparr>pr_in_range := True, lengths := ls\<rparr>"
  | (fresh) "swap_member lc rc x"
      "t = \<lparr>pr_in_range = True, element_counter = element_counter st + 1,
            start_points = start_points st @ [x], lengths = lengths st @ [2]\<rparr>"
    using pair_ranges_body_Inr[OF body] by blast
  then show ?thesis
  proof cases
    case skip
    then show ?thesis
      unfolding pair_inv_def using I1 I2 I3 I4 I5 by auto
  next
    case extend
    from extend(4) I2 have ne: "lengths st \<noteq> []"
      and ls: "ls = (lengths st)[length (lengths st) - 1 := last (lengths st) + 2]"
      by (auto simp: list_add_at_last split: if_splits)
    have "last (lengths st) \<in> set (lengths st)" using ne by simp
    from I3[OF this] have "2 \<le> last (lengths st) + 2 \<and> even (last (lengths st) + 2)" by simp
    then have C3: "\<And>n. n \<in> set ls \<Longrightarrow> 2 \<le> n \<and> even n"
      using set_update_last[OF ne] I3 unfolding ls by blast
    show ?thesis
      unfolding pair_inv_def using extend(2,5) ls I1 I2 C3 I4 I5 by auto
  next
    case fresh
    then show ?thesis
      unfolding pair_inv_def using I1 I2 I3 I4 I5 by auto
  qed
qed


section \<open>Soundness and removal for extract_character_pair_ranges\<close>

lemma zip_update_last:
  assumes "length sps = length ls" "ls \<noteq> []"
  shows "zip sps (ls[length ls - 1 := v]) = butlast (zip sps ls) @ [(last sps, v)]"
proof -
  from assms obtain ls0 l where ls: "ls = ls0 @ [l]" by (metis append_butlast_last_id)
  from assms ls obtain sps0 sp where sps: "sps = sps0 @ [sp]" "length sps0 = length ls0"
    by (metis append_butlast_last_id length_0_conv length_append_singleton nat.inject)
  show ?thesis
    unfolding ls sps(1) using sps(2) by (simp add: butlast_append)
qed

lemma last_zip:
  assumes "length sps = length ls" "ls \<noteq> []"
  shows "last (zip sps ls) = (last sps, last ls)"
proof -
  from assms obtain ls0 l where ls: "ls = ls0 @ [l]" by (metis append_butlast_last_id)
  from assms ls obtain sps0 sp where sps: "sps = sps0 @ [sp]" "length sps0 = length ls0"
    by (metis append_butlast_last_id length_0_conv length_append_singleton nat.inject)
  show ?thesis unfolding ls sps(1) using sps(2) by simp
qed

lemma pair_sound_inv_step:
  assumes keys: "sorted_keys lc = pre @ x # post"
    and noadj: "\<And>c. \<not> adjacent lc (Some rc) c"
    and pinv: "pair_inv lc rc pre st"
    and inv: "pair_sound_inv lc rc pre st"
    and body: "pair_ranges_body lc rc st x = Inr t"
  shows "pair_sound_inv lc rc (pre @ [x]) t"
proof -
  let ?Z = "zip (start_points st) (lengths st)"
  from pinv have P1: "length (lengths st) = length (start_points st)"
    and P2: "element_counter st = int (length (lengths st)) - 1"
    and P3: "\<And>n. n \<in> set (lengths st) \<Longrightarrow> 2 \<le> n \<and> even n"
    unfolding pair_inv_def by blast+
  from inv have I1: "\<And>s n j. (s, n) \<in> set ?Z \<Longrightarrow> 0 \<le> j \<Longrightarrow> j < n \<Longrightarrow> even j
               \<Longrightarrow> swap_member lc rc (s + j) \<and> s + j \<in> set pre"
    and I2: "pr_in_range st \<Longrightarrow> lengths st \<noteq> [] \<and> pre \<noteq> [] \<and>
               last (start_points st) + last (lengths st) - 2 = last pre"
    unfolding pair_sound_inv_def by blast+
  consider
    (skip) "\<not> swap_member lc rc x" "t = st\<lparr>pr_in_range := False\<rparr>"
  | (extend) ls where "swap_member lc rc x" "bidirectional lc rc (x - 2)" "pr_in_range st"
      "list_add_at (lengths st) (element_counter st) 2 = Inr ls"
      "t = st\<lparr>pr_in_range := True, lengths := ls\<rparr>"
  | (fresh) "swap_member lc rc x"
      "t = \<lparr>pr_in_range = True, element_counter = element_counter st + 1,
            start_points = start_points st @ [x], lengths = lengths st @ [2]\<rparr>"
    using pair_ranges_body_Inr[OF body] by blast
  then show ?thesis
  proof cases
    case skip
    then show ?thesis
      unfolding pair_sound_inv_def using I1 by auto
  next
    case extend
    let ?s = "last (start_points st)" and ?n = "last (lengths st)"
    from I2[OF extend(3)] have ne: "lengths st \<noteq> []" "pre \<noteq> []"
      and ends: "?s + ?n - 2 = last pre" by simp_all
    have ls: "ls = (lengths st)[length (lengths st) - 1 := ?n + 2]"
      using extend(4) P2 ne(1) by (simp add: list_add_at_last)
    have Z': "zip (start_points t) (lengths t) = butlast ?Z @ [(?s, ?n + 2)]"
      using extend(5) ls zip_update_last[OF P1[symmetric] ne(1)] by simp
    have lastZ: "last ?Z = (?s, ?n)" by (rule last_zip[OF P1[symmetric] ne(1)])
    have Zne: "?Z \<noteq> []" using ne(1) P1 by (cases "lengths st"; cases "start_points st") auto
    have inZ: "(?s, ?n) \<in> set ?Z" using lastZ Zne last_in_set by metis
    have "?n \<in> set (lengths st)" using ne(1) by simp
    from P3[OF this] have n2: "2 \<le> ?n" "even ?n" by simp_all
    from I1[OF inZ, of "?n - 2"] n2 ends
    have lastsw: "swap_member lc rc (last pre)" by (simp add: algebra_simps)
    from extend(2) have "x - 2 \<in> dom (map_of lc)" by (auto simp: bidirectional_iff)
    then have "x - 2 \<in> set pre" using keys_before(2)[OF keys, of "x - 2"] by simp
    moreover have "sorted pre"
      using sorted_sorted_keys[of lc] keys by (simp add: sorted_append)
    ultimately have ge: "x - 2 \<le> last pre" by (rule sorted_le_last[rotated])
    have lt: "last pre < x" using keys_before(1)[OF keys] ne(2) by simp
    have "last pre \<noteq> x - 1"
    proof
      assume e: "last pre = x - 1"
      with lastsw have "maps_to lc (Some rc) (x - 1) x" by (simp add: swap_member_def)
      moreover from extend(1) have "maps_to lc (Some rc) x (x + 1)"
        by (simp add: swap_member_def)
      ultimately have "adjacent lc (Some rc) x" unfolding adjacent_iff by auto
      with noadj show False by blast
    qed
    with ge lt have "last pre = x - 2" by simp
    with ends have sx: "?s + ?n = x" by simp
    have C1: "swap_member lc rc (s + j) \<and> s + j \<in> set (pre @ [x])"
      if "(s, n) \<in> set (butlast ?Z @ [(?s, ?n + 2)])" "0 \<le> j" "j < n" "even j" for s n j
    proof (cases "(s, n) = (?s, ?n + 2)")
      case True
      show ?thesis
      proof (cases "j < ?n")
        case True
        with I1[OF inZ that(2) True that(4)] \<open>(s, n) = (?s, ?n + 2)\<close> show ?thesis by simp
      next
        case False
        with that True n2 have "j = ?n" by (auto elim!: evenE) 
        then show ?thesis using True sx extend(1) by simp
      qed
    next
      case False
      with that(1) have "(s, n) \<in> set (butlast ?Z)" by auto
      then have "(s, n) \<in> set ?Z" by (rule in_set_butlastD)
      from I1[OF this that(2,3,4)] show ?thesis by simp
    qed
    have C2: "lengths t \<noteq> []" "pre @ [x] \<noteq> []"
      "last (start_points t) + last (lengths t) - 2 = last (pre @ [x])"
      using extend(5) ls ne(1) sx by (simp_all add: last_list_update)
    show ?thesis
      unfolding pair_sound_inv_def Z' using C1 C2 by blast
  next
    case fresh
    have Z': "zip (start_points t) (lengths t) = ?Z @ [(x, 2)]"
      using fresh(2) P1 by simp
    have C1: "swap_member lc rc (s + j) \<and> s + j \<in> set (pre @ [x])"
      if "(s, n) \<in> set (?Z @ [(x, 2)])" "0 \<le> j" "j < n" "even j" for s n j
    proof (cases "(s, n) \<in> set ?Z")
      case True
      from I1[OF this that(2,3,4)] show ?thesis by simp
    next
      case False
      with that(1) have e: "s = x" "n = 2" by simp_all
      with that have "j = 0" by (auto elim!: evenE)
      then show ?thesis using e fresh(1) by simp
    qed
    have C2: "lengths t \<noteq> []" "pre @ [x] \<noteq> []"
      "last (start_points t) + last (lengths t) - 2 = last (pre @ [x])"
      using fresh(2) by simp_all
    show ?thesis
      unfolding pair_sound_inv_def Z' using C1 C2 by blast
  qed
qed

lemma pair_scan_sound:
  assumes run: "for_each (pair_ranges_body lc rc) (sorted_keys lc)
             \<lparr>pr_in_range = False, element_counter = - 1, start_points = [], lengths = []\<rparr> = Inr st"
    and noadj: "\<And>c. \<not> adjacent lc (Some rc) c"
  shows "pair_inv lc rc (sorted_keys lc) st \<and> pair_sound_inv lc rc (sorted_keys lc) st"
proof (rule for_each_rule[where I = "\<lambda>pre st. pair_inv lc rc pre st \<and> pair_sound_inv lc rc pre st",
      OF run])
  show "pair_inv lc rc []
          \<lparr>pr_in_range = False, element_counter = - 1, start_points = [], lengths = []\<rparr> \<and>
        pair_sound_inv lc rc []
          \<lparr>pr_in_range = False, element_counter = - 1, start_points = [], lengths = []\<rparr>"
    by (simp add: pair_inv_def pair_sound_inv_def)
next
  fix pre x post s t
  assume "sorted_keys lc = pre @ x # post"
    "pair_inv lc rc pre s \<and> pair_sound_inv lc rc pre s"
    "pair_ranges_body lc rc s x = Inr t"
  then show "pair_inv lc rc (pre @ [x]) t \<and> pair_sound_inv lc rc (pre @ [x]) t"
    using pair_inv_step pair_sound_inv_step[OF _ noadj] by blast
qed

lemma remove_pair_body_Inr:
  assumes "remove_pair_body s (lc, rc) j = Inr (lc', rc')"
  shows "removed lc [s + j] lc'" and "removed rc [s + 1 + j] rc'"
proof -
  from assms obtain l1 where l1: "dict_del lc (s + j) = Inr l1"
    by (cases "dict_del lc (s + j)") simp_all
  from assms l1 obtain r1 where r1: "dict_del rc (s + 1 + j) = Inr r1"
    by (cases "dict_del rc (s + 1 + j)") simp_all
  from assms l1 r1 have "lc' = l1" "rc' = r1" by simp_all
  then show "removed lc [s + j] lc'" "removed rc [s + 1 + j] rc'"
    using removed_del[OF l1] removed_del[OF r1] by simp_all
qed

declare remove_pair_body.simps [simp del]

lemma remove_pair_inner:
  assumes "for_each (remove_pair_body s) js (lc, rc) = Inr (lc', rc')"
  shows "removed lc (map (\<lambda>j. s + j) js) lc'" and "removed rc (map (\<lambda>j. s + 1 + j) js) rc'"
proof -
  have "removed (fst (lc, rc)) (concat (map (\<lambda>j. [s + j]) js)) (fst (lc', rc')) \<and> True"
  proof (rule for_each_removed[OF assms, where P = "\<lambda>_. True"])
    fix st :: "dict \<times> dict" and x t
    assume h: "remove_pair_body s st x = Inr t"
    obtain a b where st: "st = (a, b)" by (cases st)
    obtain a' b' where t: "t = (a', b')" by (cases t)
    from h have "remove_pair_body s (a, b) x = Inr (a', b')" unfolding st t .
    from remove_pair_body_Inr(1)[OF this]
    show "removed (fst st) [s + x] (fst t) \<and> True" unfolding st t by simp
  qed simp
  then show "removed lc (map (\<lambda>j. s + j) js) lc'" by (simp add: concat_map_single)
  have "removed (snd (lc, rc)) (concat (map (\<lambda>j. [s + 1 + j]) js)) (snd (lc', rc')) \<and> True"
  proof (rule for_each_removed[OF assms, where P = "\<lambda>_. True"])
    fix st :: "dict \<times> dict" and x t
    assume h: "remove_pair_body s st x = Inr t"
    obtain a b where st: "st = (a, b)" by (cases st)
    obtain a' b' where t: "t = (a', b')" by (cases t)
    from h have "remove_pair_body s (a, b) x = Inr (a', b')" unfolding st t .
    from remove_pair_body_Inr(2)[OF this]
    show "removed (snd st) [s + 1 + x] (snd t) \<and> True" unfolding st t by simp
  qed simp
  then show "removed rc (map (\<lambda>j. s + 1 + j) js) rc'" by (simp add: concat_map_single)
qed

lemma remove_pair_ranges_body_step:
  assumes "remove_pair_ranges_body sps ls (lc, rc) (int i) = Inr (lc', rc')"
  shows "removed lc (map (\<lambda>j. sps ! i + j) (py_range_step (ls ! i) 2)) lc'"
    and "removed rc (map (\<lambda>j. sps ! i + 1 + j) (py_range_step (ls ! i) 2)) rc'"
proof -
  from assms obtain s where s: "list_get sps (int i) = Inr s"
    by (cases "list_get sps (int i)") (simp_all add: remove_pair_ranges_body_def)
  from assms s obtain n where n: "list_get ls (int i) = Inr n"
    by (cases "list_get ls (int i)") (simp_all add: remove_pair_ranges_body_def)
  from list_get_nat[OF s] list_get_nat[OF n] have v: "s = sps ! i" "n = ls ! i" by simp_all
  have run: "for_each (remove_pair_body (sps ! i)) (py_range_step (ls ! i) 2) (lc, rc)
               = Inr (lc', rc')"
    using assms s n v by (simp add: remove_pair_ranges_body_def)
  show "removed lc (map (\<lambda>j. sps ! i + j) (py_range_step (ls ! i) 2)) lc'"
    by (rule remove_pair_inner(1)[OF run])
  show "removed rc (map (\<lambda>j. sps ! i + 1 + j) (py_range_step (ls ! i) 2)) rc'"
    by (rule remove_pair_inner(2)[OF run])
qed

lemma remove_pair_ranges_outer:
  assumes "for_each (remove_pair_ranges_body sps ls) (map int is) (lc, rc) = Inr (lc', rc')"
  shows "removed lc (concat (map (\<lambda>i. map (\<lambda>j. sps ! i + j) (py_range_step (ls ! i) 2)) is)) lc'"
    and "removed rc (concat (map (\<lambda>i. map (\<lambda>j. sps ! i + 1 + j) (py_range_step (ls ! i) 2)) is)) rc'"
  using assms
proof (induction "is" arbitrary: lc rc)
  case Nil
  { case 1 then show ?case by (simp add: removed_Nil) }
  { case 2 then show ?case by (simp add: removed_Nil) }
next
  case (Cons i "is")
  { case 1
    then obtain l1 r1 where
      a: "remove_pair_ranges_body sps ls (lc, rc) (int i) = Inr (l1, r1)"
         "for_each (remove_pair_ranges_body sps ls) (map int is) (l1, r1) = Inr (lc', rc')"
      by (auto split: sum.splits)
    from removed_trans[OF remove_pair_ranges_body_step(1)[OF a(1)] Cons.IH(1)[OF a(2)]]
    show ?case by simp }
  { case 2
    then obtain l1 r1 where
      a: "remove_pair_ranges_body sps ls (lc, rc) (int i) = Inr (l1, r1)"
         "for_each (remove_pair_ranges_body sps ls) (map int is) (l1, r1) = Inr (lc', rc')"
      by (auto split: sum.splits)
    from removed_trans[OF remove_pair_ranges_body_step(2)[OF a(1)] Cons.IH(2)[OF a(2)]]
    show ?case by simp }
qed

lemma extract_pair_ranges_scan:
  assumes "extract_character_pair_ranges lc rc = Inr ((sps, ls), lc', rc')"
  shows "\<exists>st. for_each (pair_ranges_body lc rc) (sorted_keys lc)
             \<lparr>pr_in_range = False, element_counter = - 1, start_points = [], lengths = []\<rparr> = Inr st
           \<and> start_points st = sps \<and> lengths st = ls
           \<and> for_each (remove_pair_ranges_body sps ls) (py_range (int (length sps))) (lc, rc)
               = Inr (lc', rc')"
  using assms by (auto simp: extract_character_pair_ranges_def split: sum.splits)

lemma extract_pair_ranges_removed:
  assumes "extract_character_pair_ranges lc rc = Inr ((sps, ls), lc', rc')"
  shows "removed lc (pair_domain (sps, ls)) lc'" and "removed rc (pair_codomain (sps, ls)) rc'"
proof -
  from extract_pair_ranges_scan[OF assms] have
    run: "for_each (remove_pair_ranges_body sps ls) (map int [0..<length sps]) (lc, rc)
            = Inr (lc', rc')"
    by (auto simp: py_range_int)
  show "removed lc (pair_domain (sps, ls)) lc'"
    using remove_pair_ranges_outer(1)[OF run] by (simp add: pair_domain_def)
  show "removed rc (pair_codomain (sps, ls)) rc'"
    using remove_pair_ranges_outer(2)[OF run] by (simp add: pair_codomain_def)
qed


lemma extract_pair_ranges_sound:
  assumes "extract_character_pair_ranges lc rc = Inr ((sps, ls), lc', rc')"
    and noadj: "\<And>c. \<not> adjacent lc (Some rc) c"
    and "i < length sps" "j \<in> set (py_range_step (ls ! i) 2)"
  shows "swap_member lc rc (sps ! i + j)"
proof -
  from extract_pair_ranges_scan[OF assms(1)] obtain st where
    st: "for_each (pair_ranges_body lc rc) (sorted_keys lc)
             \<lparr>pr_in_range = False, element_counter = - 1, start_points = [], lengths = []\<rparr> = Inr st"
      "start_points st = sps" "lengths st = ls"
    by blast
  from pair_scan_sound[OF st(1) noadj] have
    len: "length ls = length sps" and
    snd: "\<And>s n j. (s, n) \<in> set (zip sps ls) \<Longrightarrow> 0 \<le> j \<Longrightarrow> j < n \<Longrightarrow> even j
             \<Longrightarrow> swap_member lc rc (s + j)"
    unfolding pair_inv_def pair_sound_inv_def st(2,3) by blast+
  have z: "(sps ! i, ls ! i) \<in> set (zip sps ls)"
    using assms(3) len by (auto simp: set_zip)
  from assms(4) obtain k where k: "j = int (k * 2)" "k < (nat (ls ! i) + 2 - 1) div 2"
    by (auto simp: py_range_step_def)
  then have "0 \<le> j" "j < ls ! i" "even j" by auto
  from snd[OF z this] show ?thesis .
qed

section \<open>The loop of extract_character_pairs\<close>

lemma length_flat_pairs: "length (flat_pairs qs) = 2 * length qs"
  by (induction qs) (auto simp: flat_pairs_def)

lemma flat_pairs_append: "flat_pairs (a @ b) = flat_pairs a @ flat_pairs b"
  by (simp add: flat_pairs_def)

lemma pair_entries_flat: "pair_entries (flat_pairs qs) = qs"
proof (induction qs rule: rev_induct)
  case Nil
  then show ?case by (simp add: pair_entries_def flat_pairs_def)
next
  case (snoc q qs)
  obtain a b where q: "q = (a, b)" by (cases q)
  let ?f = "flat_pairs qs"
  have len: "length ?f = 2 * length qs" by (rule length_flat_pairs)
  have fl: "flat_pairs (qs @ [(a, b)]) = ?f @ [a, b]"
    by (simp add: flat_pairs_def)
  have m1: "map (\<lambda>i. ((?f @ [a, b]) ! (2 * i), (?f @ [a, b]) ! (2 * i + 1))) [0..<length qs]
        = map (\<lambda>i. (?f ! (2 * i), ?f ! (2 * i + 1))) [0..<length qs]"
    using len by (intro map_cong) (auto simp: nth_append)
  have ih: "map (\<lambda>i. (?f ! (2 * i), ?f ! (2 * i + 1))) [0..<length qs] = qs"
    using snoc.IH len by (simp add: pair_entries_def)
  have l1: "(?f @ [a, b]) ! (2 * length qs) = a" and l2: "(?f @ [a, b]) ! (2 * length qs + 1) = b"
    using len by (simp_all add: nth_append)
  have "pair_entries (?f @ [a, b]) =
          map (\<lambda>i. ((?f @ [a, b]) ! (2 * i), (?f @ [a, b]) ! (2 * i + 1))) [0..<length qs] @
          [((?f @ [a, b]) ! (2 * length qs), (?f @ [a, b]) ! (2 * length qs + 1))]"
    by (simp add: pair_entries_def len)
  also have "\<dots> = qs @ [(a, b)]"
    by (simp only: m1 ih l1 l2)
  finally show ?case unfolding q fl .
qed

lemma character_pairs_body_Inr:
  assumes "character_pairs_body (ps, lc, rc) x = Inr (ps1, l1, r1)"
  shows "(\<not> bidirectional lc rc x \<and> ps1 = ps \<and> l1 = lc \<and> r1 = rc) \<or>
         (\<exists>m. maps_to lc (Some rc) x m \<and> ps1 = ps @ [x, m] \<and>
              removed lc [x] l1 \<and> removed rc [m] r1)"
proof -
  from assms obtain b where b: "is_bidirectional_conversion x lc rc = Inr b"
    by (cases "is_bidirectional_conversion x lc rc") simp_all
  from is_bidirectional_conversion_Inr[OF b] have bv: "b = bidirectional lc rc x" .
  show ?thesis
  proof (cases b)
    case False
    then show ?thesis using assms b bv by simp
  next
    case True
    with bv obtain m where m: "map_of lc x = Some [m]" "map_of rc m = Some [x]"
      by (auto simp: bidirectional_iff)
    from assms b True m obtain l2 where l2: "dict_del lc x = Inr l2"
      by (cases "dict_del lc x") (simp_all add: dict_get_def)
    from assms b True m l2 obtain r2 where r2: "dict_del rc m = Inr r2"
      by (cases "dict_del rc m") (simp_all add: dict_get_def)
    have "ps1 = ps @ [x, m]" "l1 = l2" "r1 = r2"
      using assms b True m l2 r2 by (simp_all add: dict_get_def)
    then show ?thesis
      using m removed_del[OF l2] removed_del[OF r2] by (auto simp: maps_to_def)
  qed
qed

declare character_pairs_body.simps [simp del]

lemma maps_to_removed:
  assumes "removed lc ks l1" "removed rc ks' r1" "maps_to l1 (Some r1) a b"
  shows "maps_to lc (Some rc) a b"
  using assms by (auto simp: maps_to_def dest: removed_lookup)

lemma character_pairs_loop:
  assumes "for_each character_pairs_body ks (ps, lc, rc) = Inr (ps', lc', rc')"
  shows "\<exists>qs. ps' = ps @ flat_pairs qs \<and> removed lc (map fst qs) lc' \<and>
              removed rc (map snd qs) rc' \<and>
              (\<forall>a b. (a, b) \<in> set qs \<longrightarrow> maps_to lc (Some rc) a b)"
  using assms
proof (induction ks arbitrary: ps lc rc)
  case Nil
  then have "ps' = ps @ flat_pairs []" "lc' = lc" "rc' = rc"
    by (simp_all add: flat_pairs_def)
  then show ?case
    by (intro exI[of _ "[]"]) (simp add: removed_Nil)
next
  case (Cons x ks)
  from Cons.prems obtain t where t: "character_pairs_body (ps, lc, rc) x = Inr t"
      "for_each character_pairs_body ks t = Inr (ps', lc', rc')"
    by (auto split: sum.splits)
  obtain ps1 l1 r1 where tv: "t = (ps1, l1, r1)" by (cases t)
  from Cons.IH[OF t(2)[unfolded tv]] obtain qs where
    qs: "ps' = ps1 @ flat_pairs qs" "removed l1 (map fst qs) lc'" "removed r1 (map snd qs) rc'"
        "\<And>a b. (a, b) \<in> set qs \<Longrightarrow> maps_to l1 (Some r1) a b"
    by blast
  from character_pairs_body_Inr[OF t(1)[unfolded tv]] show ?case
  proof
    assume "\<not> bidirectional lc rc x \<and> ps1 = ps \<and> l1 = lc \<and> r1 = rc"
    then show ?thesis using qs by blast
  next
    assume "\<exists>m. maps_to lc (Some rc) x m \<and> ps1 = ps @ [x, m] \<and>
              removed lc [x] l1 \<and> removed rc [m] r1"
    then obtain m where m: "maps_to lc (Some rc) x m" "ps1 = ps @ [x, m]"
        "removed lc [x] l1" "removed rc [m] r1"
      by blast
    have 1: "ps' = ps @ flat_pairs ((x, m) # qs)"
      using qs(1) m(2) by (simp add: flat_pairs_def)
    have 2: "removed lc (map fst ((x, m) # qs)) lc'"
      using removed_trans[OF m(3) qs(2)] by simp
    have 3: "removed rc (map snd ((x, m) # qs)) rc'"
      using removed_trans[OF m(4) qs(3)] by simp
    have 4: "maps_to lc (Some rc) a b" if "(a, b) \<in> set ((x, m) # qs)" for a b
    proof (cases "(a, b) = (x, m)")
      case True
      then show ?thesis using m(1) by simp
    next
      case False
      with that have "(a, b) \<in> set qs" by auto
      from maps_to_removed[OF m(3) m(4) qs(4)[OF this]] show ?thesis .
    qed
    show ?thesis using 1 2 3 4 by blast
  qed
qed

lemma extract_character_pairs_result:
  assumes "extract_character_pairs lc rc = Inr (ps, lc', rc')"
  shows "removed lc (map fst (pair_entries ps)) lc'"
    and "removed rc (map snd (pair_entries ps)) rc'"
    and "\<And>a b. (a, b) \<in> set (pair_entries ps) \<Longrightarrow> maps_to lc (Some rc) a b"
proof -
  from character_pairs_loop[OF assms[unfolded extract_character_pairs_def]] obtain qs where
    qs: "ps = flat_pairs qs" "removed lc (map fst qs) lc'" "removed rc (map snd qs) rc'"
        "\<And>a b. (a, b) \<in> set qs \<Longrightarrow> maps_to lc (Some rc) a b"
    by auto
  have e: "pair_entries ps = qs" unfolding qs(1) by (rule pair_entries_flat)
  show "removed lc (map fst (pair_entries ps)) lc'" unfolding e by (rule qs(2))
  show "removed rc (map snd (pair_entries ps)) rc'" unfolding e by (rule qs(3))
  show "\<And>a b. (a, b) \<in> set (pair_entries ps) \<Longrightarrow> maps_to lc (Some rc) a b"
    unfolding e by (rule qs(4))
qed




lemma extract_conversions_result:
  "\<exists>flat n1 n2 n3 d'.
     extract_conversions d = Inr ((flat, [n1, n2, n3]), d') \<and>
     int (length flat) = 2 * n1 + 3 * n2 + 4 * n3 \<and>
     flat = flat_bucket (conversion_bucket 1 d) @ flat_bucket (conversion_bucket 2 d) @
            flat_bucket (conversion_bucket 3 d) \<and>
     n1 = int (length (conversion_bucket 1 d)) \<and>
     n2 = int (length (conversion_bucket 2 d)) \<and>
     n3 = int (length (conversion_bucket 3 d)) \<and>
     sorted_wrt (<) (map fst (conversion_bucket 1 d)) \<and>
     sorted_wrt (<) (map fst (conversion_bucket 2 d)) \<and>
     sorted_wrt (<) (map fst (conversion_bucket 3 d)) \<and>
     map_of d' = without_arity {1, 2, 3} d"
proof -
  obtain d1 where d1: "conversions_loop 1 d = Inr (flat_bucket (conversion_bucket 1 d), d1)"
      "map_of d1 = without_arity {1} d"
    using conversions_loop_result[of 1 d] by blast
  obtain d2 where d2: "conversions_loop 2 d1 = Inr (flat_bucket (conversion_bucket 2 d1), d2)"
      "map_of d2 = without_arity {2} d1"
    using conversions_loop_result[of 2 d1] by blast
  obtain d3 where d3: "conversions_loop 3 d2 = Inr (flat_bucket (conversion_bucket 3 d2), d3)"
      "map_of d3 = without_arity {3} d2"
    using conversions_loop_result[of 3 d2] by blast
  have m2: "map_of d2 = without_arity {1, 2} d"
    using without_arity_twice[OF d1(2) d2(2)] by (simp add: insert_commute)
  have m3: "map_of d3 = without_arity {1, 2, 3} d"
    using without_arity_twice[OF m2 d3(2)] by (simp add: insert_commute)
  have b2: "conversion_bucket 2 d1 = conversion_bucket 2 d"
    by (rule conversion_bucket_after[OF d1(2)]) simp
  have b3: "conversion_bucket 3 d2 = conversion_bucket 3 d"
    by (rule conversion_bucket_after[OF m2]) simp
  let ?u0 = "flat_bucket (conversion_bucket 1 d)"
  let ?u1 = "flat_bucket (conversion_bucket 2 d)"
  let ?u2 = "flat_bucket (conversion_bucket 3 d)"
  have l0: "length ?u0 = 2 * length (conversion_bucket 1 d)"
    using length_flat_bucket[OF conversion_bucket_arity, of 1 d] by simp
  have l1: "length ?u1 = 3 * length (conversion_bucket 2 d)"
    using length_flat_bucket[OF conversion_bucket_arity, of 2 d] by simp
  have l2: "length ?u2 = 4 * length (conversion_bucket 3 d)"
    using length_flat_bucket[OF conversion_bucket_arity, of 3 d] by simp
  have run: "extract_conversions d =
      Inr ((?u0 @ ?u1 @ ?u2,
            [int (length (conversion_bucket 1 d)), int (length (conversion_bucket 2 d)),
             int (length (conversion_bucket 3 d))]), d3)"
    using d1(1) d2(1) d3(1) b2 b3 l0 l1 l2 by (simp add: extract_conversions_def)
  have len: "int (length (?u0 @ ?u1 @ ?u2)) =
      2 * int (length (conversion_bucket 1 d)) + 3 * int (length (conversion_bucket 2 d)) +
      4 * int (length (conversion_bucket 3 d))"
    using l0 l1 l2 by simp
  show ?thesis
    using run len m3 conversion_bucket_ascending by blast
qed

section \<open>Special ranges and residual buckets: what is removed\<close>

lemma special_body_length:
  assumes "special_ranges_body lc st x = Inr t"
    and "length (special_ranges st) = 3 * length (special_range_lengths st)"
  shows "length (special_ranges t) = 3 * length (special_range_lengths t)"
proof -
  have upd: "length (special_range_lengths st) = length ls"
    if "list_add_at (special_range_lengths st) (sp_range_position st) 1 = Inr ls" for ls
    using that by (auto simp: list_add_at_def Let_def split: if_splits)
  from assms(1) consider
    (same) "special_ranges t = special_ranges st"
           "length (special_range_lengths t) = length (special_range_lengths st)"
  | (app) a b c where "special_ranges t = special_ranges st @ [a, b, c]"
           "special_range_lengths t = special_range_lengths st @ [1]"
    unfolding special_ranges_body_def Let_def
    by (auto split: sum.splits if_splits option.splits bool.splits dest: upd)
  then show ?thesis using assms(2) by cases simp_all
qed

lemma special_scan_length:
  assumes "for_each (special_ranges_body lc) ks
             \<lparr>sp_in_range = None, sp_range_position = - 1,
              special_ranges = [], special_range_lengths = []\<rparr> = Inr st"
  shows "length (special_ranges st) = 3 * length (special_range_lengths st)"
proof (rule for_each_preserves[OF assms,
      where P = "\<lambda>st. length (special_ranges st) = 3 * length (special_range_lengths st)"])
  show "length (special_ranges \<lparr>sp_in_range = None, sp_range_position = - 1,
              special_ranges = [], special_range_lengths = []\<rparr>) =
        3 * length (special_range_lengths \<lparr>sp_in_range = None, sp_range_position = - 1,
              special_ranges = [], special_range_lengths = []\<rparr>)"
    by simp
next
  fix s x t
  assume "length (special_ranges s) = 3 * length (special_range_lengths s)"
    "special_ranges_body lc s x = Inr t"
  then show "length (special_ranges t) = 3 * length (special_range_lengths t)"
    using special_body_length by blast
qed

lemma remove_special_body_Inr:
  assumes "remove_special_body srs (int (3 * i)) lc j = Inr lc'"
  shows "removed lc [srs ! (3 * i) + j] lc'"
proof -
  from assms obtain start where s: "list_get srs (int (3 * i)) = Inr start"
    by (cases "list_get srs (int (3 * i))") (simp_all add: remove_special_body_def)
  from list_get_nat[OF s] have st: "start = srs ! (3 * i)" by simp
  from assms s have "dict_del lc (start + j) = Inr lc'"
    by (simp add: remove_special_body_def)
  from removed_del[OF this] show ?thesis using st by simp
qed

lemma remove_special_ranges_body_step:
  assumes "remove_special_ranges_body srs ls lc (int (i * 3)) = Inr lc'"
  shows "removed lc (map (\<lambda>j. srs ! (3 * i) + j) (py_range (ls ! i))) lc'"
proof -
  have d: "int (i * 3) div 3 = int i" by simp
  from assms obtain n where n: "list_get ls (int i) = Inr n"
    by (cases "list_get ls (int i)") (simp_all add: remove_special_ranges_body_def d)
  from list_get_nat[OF n] have nv: "n = ls ! i" by simp
  from assms n obtain l where l: "list_get srs (int (i * 3)) = Inr l"
    by (cases "list_get srs (int (i * 3))") (simp_all add: remove_special_ranges_body_def d)
  have run: "for_each (remove_special_body srs (int (3 * i))) (py_range (ls ! i)) lc = Inr lc'"
    using assms n nv l by (simp add: remove_special_ranges_body_def d mult.commute)
  have "removed lc (concat (map (\<lambda>j. [srs ! (3 * i) + j]) (py_range (ls ! i)))) lc' \<and> True"
  proof (rule for_each_removed[OF run, where P = "\<lambda>_. True" and proj = "\<lambda>d. d"])
    fix s x t
    assume "remove_special_body srs (int (3 * i)) s x = Inr t"
    from remove_special_body_Inr[OF this]
    show "removed s [srs ! (3 * i) + x] t \<and> True" by simp
  qed simp
  then show ?thesis by (simp add: concat_map_single)
qed

lemma remove_special_ranges_outer:
  assumes "for_each (remove_special_ranges_body srs ls) (map (\<lambda>i. int (i * 3)) is) lc = Inr lc'"
  shows "removed lc (concat (map (\<lambda>i. map (\<lambda>j. srs ! (3 * i) + j) (py_range (ls ! i))) is)) lc'"
proof -
  have first: "removed lc (concat (map (\<lambda>x. map (\<lambda>j. srs ! nat x + j) (py_range (ls ! nat (x div 3))))
                              (map (\<lambda>i. int (i * 3)) is))) lc' \<and> True"
  proof (rule for_each_removed[OF assms, where P = "\<lambda>_. True" and proj = "\<lambda>d. d"])
    fix s x t
    assume x: "x \<in> set (map (\<lambda>i. int (i * 3)) is)"
      and b: "remove_special_ranges_body srs ls s x = Inr t"
    from x obtain i where i: "x = int (i * 3)" by auto
    have "nat x = 3 * i" "nat (x div 3) = i" using i by simp_all
    with remove_special_ranges_body_step[OF b[unfolded i]]
    show "removed s (map (\<lambda>j. srs ! nat x + j) (py_range (ls ! nat (x div 3)))) t \<and> True"
      by simp
  qed simp
  have eq: "map (\<lambda>x. map (\<lambda>j. srs ! nat x + j) (py_range (ls ! nat (x div 3))))
                              (map (\<lambda>i. int (i * 3)) is)
      = map (\<lambda>i. map (\<lambda>j. srs ! (3 * i) + j) (py_range (ls ! i))) is"
  proof -
    have h: "nat (int i * 3) = 3 * i" for i by (simp add: nat_mult_distrib)
    show ?thesis by (simp add: comp_def h)
  qed
  from first have "removed lc (concat (map (\<lambda>x. map (\<lambda>j. srs ! nat x + j)
                              (py_range (ls ! nat (x div 3)))) (map (\<lambda>i. int (i * 3)) is))) lc'"
    by (rule conjunct1)
  then show ?thesis by (simp only: eq)
qed

lemma extract_special_ranges_removed:
  assumes "extract_special_ranges lc = Inr (t, lc')"
  shows "removed lc (special_domain t) lc'"
proof -
  obtain srs ls where t: "t = (srs, ls)" by (cases t)
  from assms[unfolded t] obtain st where
    st: "for_each (special_ranges_body lc) (sorted_keys lc)
             \<lparr>sp_in_range = None, sp_range_position = - 1,
              special_ranges = [], special_range_lengths = []\<rparr> = Inr st"
      "special_ranges st = srs" "special_range_lengths st = ls"
      "for_each (remove_special_ranges_body srs ls) (py_range_step (int (length srs)) 3) lc
         = Inr lc'"
    by (auto simp: extract_special_ranges_def split: sum.splits)
  from special_scan_length[OF st(1)] st(2,3) have len: "length srs = 3 * length ls" by simp
  have "for_each (remove_special_ranges_body srs ls) (map (\<lambda>i. int (i * 3)) [0..<length ls]) lc
         = Inr lc'"
    using st(4) len py_range_step_3[of "length ls"] by simp
  from remove_special_ranges_outer[OF this] show ?thesis
    by (simp add: t special_domain_def)
qed

lemma conv_keys_Cons:
  assumes "length v = n"
  shows "conv_keys (Suc n) (Suc c) (k # v @ tail) = k # conv_keys (Suc n) c tail"
proof -
  have "(k # v @ tail) ! (Suc i * Suc n) = tail ! (i * Suc n)" for i
  proof -
    have "Suc i * Suc n = length (k # v) + i * Suc n" using assms by simp
    then show ?thesis by (metis append_Cons nth_append_length_plus)
  qed
  then have "map (\<lambda>i. (k # v @ tail) ! (Suc i * Suc n)) [0..<c]
           = map (\<lambda>i. tail ! (i * Suc n)) [0..<c]"
    by simp
  then show ?thesis
    unfolding conv_keys_def by (simp add: map_upt_Suc del: upt_Suc mult_Suc mult_Suc_right)
qed

lemma conv_keys_flat_bucket:
  assumes "list_all (\<lambda>(k, v). length v = n) b"
  shows "conv_keys (Suc n) (length b) (flat_bucket b @ rest) = map fst b"
  using assms
proof (induction b)
  case Nil
  then show ?case by (simp add: conv_keys_def)
next
  case (Cons a b)
  obtain k v where a: "a = (k, v)" by (cases a)
  with Cons.prems have v: "length v = n" and rest: "list_all (\<lambda>(k, v). length v = n) b"
    by simp_all
  have "flat_bucket (a # b) @ rest = k # v @ (flat_bucket b @ rest)"
    by (simp add: flat_bucket_def a)
  then show ?case
    using conv_keys_Cons[OF v, of "length b" k "flat_bucket b @ rest"] Cons.IH[OF rest] a
    by simp
qed

lemma set_conversion_bucket_keys:
  "set (map fst (conversion_bucket n d)) = {k. \<exists>v. map_of d k = Some v \<and> length v = n}"
proof -
  have "set (map fst (conversion_bucket n d))
          = {k \<in> set (sorted_keys d). arity_entry n d k \<noteq> None}"
    by (simp add: conversion_bucket_def map_fst_map_filter_arity)
  also have "\<dots> = {k. \<exists>v. map_of d k = Some v \<and> length v = n}"
    by (auto simp: set_sorted_keys arity_entry_def split: option.splits if_splits)
  finally show ?thesis .
qed

lemma distinct_conversion_bucket_keys: "distinct (map fst (conversion_bucket n d))"
  using conversion_bucket_ascending[of n d] by (simp add: strict_sorted_iff)

lemma extract_conversions_removed:
  assumes "extract_conversions d = Inr (t, d')"
  shows "removed d (conversions_domain t) d'" and "map_of d' = without_arity {1, 2, 3} d"
proof -
  let ?b1 = "conversion_bucket 1 d" and ?b2 = "conversion_bucket 2 d"
    and ?b3 = "conversion_bucket 3 d"
  from extract_conversions_result[of d] assms have
    t: "t = (flat_bucket ?b1 @ flat_bucket ?b2 @ flat_bucket ?b3,
             [int (length ?b1), int (length ?b2), int (length ?b3)])"
    and m: "map_of d' = without_arity {1, 2, 3} d"
    by auto
  show "map_of d' = without_arity {1, 2, 3} d" by (rule m)
  have l1: "length (flat_bucket ?b1) = 2 * length ?b1"
    using length_flat_bucket[OF conversion_bucket_arity, of 1 d] by simp
  have l2: "length (flat_bucket ?b2) = 3 * length ?b2"
    using length_flat_bucket[OF conversion_bucket_arity, of 2 d] by simp
  have s2: "Suc 1 = 2" and s3: "Suc 2 = 3" and s4: "Suc 3 = 4" by simp_all
  have k1: "conv_keys 2 (length ?b1) (flat_bucket ?b1 @ flat_bucket ?b2 @ flat_bucket ?b3)
              = map fst ?b1"
    by (rule conv_keys_flat_bucket[OF conversion_bucket_arity, of 1 d, unfolded s2])
  have k2: "conv_keys 3 (length ?b2) (flat_bucket ?b2 @ flat_bucket ?b3) = map fst ?b2"
    by (rule conv_keys_flat_bucket[OF conversion_bucket_arity, of 2 d, unfolded s3])
  have "conv_keys 4 (length ?b3) (flat_bucket ?b3 @ []) = map fst ?b3"
    by (rule conv_keys_flat_bucket[OF conversion_bucket_arity, of 3 d, unfolded s4])
  then have k3: "conv_keys 4 (length ?b3) (flat_bucket ?b3) = map fst ?b3" by simp
  have d1: "drop (2 * length ?b1) (flat_bucket ?b1 @ flat_bucket ?b2 @ flat_bucket ?b3)
              = flat_bucket ?b2 @ flat_bucket ?b3"
    using l1 by (simp del: One_nat_def)
  have d2: "drop (2 * length ?b1 + 3 * length ?b2)
              (flat_bucket ?b1 @ flat_bucket ?b2 @ flat_bucket ?b3) = flat_bucket ?b3"
    using l1 l2 by (simp del: One_nat_def)
  have dom: "conversions_domain t = map fst ?b1 @ map fst ?b2 @ map fst ?b3"
    unfolding t conversions_domain_def
    by (simp add: Let_def k1 k2 k3 d1 d2 del: One_nat_def drop_append)
  have dis: "distinct (map fst ?b1 @ map fst ?b2 @ map fst ?b3)"
    using distinct_conversion_bucket_keys[of 1 d] distinct_conversion_bucket_keys[of 2 d]
      distinct_conversion_bucket_keys[of 3 d]
    by (auto simp: set_conversion_bucket_keys simp del: set_map)
  have sub: "set (map fst ?b1 @ map fst ?b2 @ map fst ?b3) \<subseteq> dom (map_of d)"
    by (auto simp: set_conversion_bucket_keys simp del: set_map)
  have mm: "map_of d' = (\<lambda>k. if k \<in> set (map fst ?b1 @ map fst ?b2 @ map fst ?b3) then None
                             else map_of d k)"
    unfolding m
    by (auto simp: fun_eq_iff without_arity_def set_conversion_bucket_keys
        simp del: set_map split: option.splits)
  show "removed d (conversions_domain t) d'"
    unfolding dom removed_def using dis sub mm by blast
qed

section \<open>The pipeline of ConversionTables\<close>

lemma well_formed_lookup:
  "well_formed d \<Longrightarrow> map_of d k = Some v \<Longrightarrow> length v \<in> {1, 2, 3}"
  by (auto simp: well_formed_def list_all_iff dest: map_of_SomeD)

lemma extraction_pipeline_stages:
  assumes "extraction_pipeline lower upper = Inr (t, le, ue)"
  shows "\<exists>l1 u1 l2 u2 l3 u3 u4 l5.
           extract_ranges lower (Some upper) = Inr (character_case_ranges t, l1, Some u1) \<and>
           extract_character_pair_ranges l1 u1 = Inr (character_pair_ranges t, l2, u2) \<and>
           extract_character_pairs l2 u2 = Inr (character_pairs t, l3, u3) \<and>
           extract_special_ranges u3 = Inr (upper_case_special_ranges t, u4) \<and>
           extract_ranges l3 None = Inr (lower_case_ranges t, l5, None) \<and>
           extract_conversions l5 = Inr (lower_case_conversions t, le) \<and>
           extract_conversions u4 = Inr (upper_case_conversions t, ue)"
proof -
  from assms obtain t1 l1 r1 where
    s1: "extract_ranges lower (Some upper) = Inr (t1, l1, r1)"
    by (cases "extract_ranges lower (Some upper)")
       (auto simp: extraction_pipeline_def)
  obtain rs1 ls1 where t1: "t1 = (rs1, ls1)" by (cases t1)
  from extract_ranges_removed(3)[OF s1[unfolded t1] refl] obtain u1 where
    u1: "r1 = Some u1" by blast
  from assms s1 u1 obtain t2 l2 u2 where
    s2: "extract_character_pair_ranges l1 u1 = Inr (t2, l2, u2)"
    by (cases "extract_character_pair_ranges l1 u1")
       (auto simp: extraction_pipeline_def after_call_def)
  from assms s1 u1 s2 obtain t3 l3 u3 where
    s3: "extract_character_pairs l2 u2 = Inr (t3, l3, u3)"
    by (cases "extract_character_pairs l2 u2")
       (auto simp: extraction_pipeline_def after_call_def)
  from assms s1 u1 s2 s3 obtain t4 u4 where
    s4: "extract_special_ranges u3 = Inr (t4, u4)"
    by (cases "extract_special_ranges u3")
       (auto simp: extraction_pipeline_def after_call_def)
  from assms s1 u1 s2 s3 s4 obtain t5 l5 r5 where
    s5: "extract_ranges l3 None = Inr (t5, l5, r5)"
    by (cases "extract_ranges l3 None")
       (auto simp: extraction_pipeline_def after_call_def)
  obtain rs5 ls5 where t5: "t5 = (rs5, ls5)" by (cases t5)
  from extract_ranges_removed(2)[OF s5[unfolded t5] refl] have r5: "r5 = None" .
  from assms s1 u1 s2 s3 s4 s5 obtain t6 l6 where
    s6: "extract_conversions l5 = Inr (t6, l6)"
    by (cases "extract_conversions l5")
       (auto simp: extraction_pipeline_def after_call_def)
  from assms s1 u1 s2 s3 s4 s5 r5 s6 obtain t7 u7 where
    s7: "extract_conversions u4 = Inr (t7, u7)"
    by (cases "extract_conversions u4")
       (auto simp: extraction_pipeline_def after_call_def)
  from assms s1 u1 s2 s3 s4 s5 r5 s6 s7 have
    "t = \<lparr>character_case_ranges = t1, character_pair_ranges = t2, character_pairs = t3,
          upper_case_special_ranges = t4, lower_case_ranges = t5,
          lower_case_conversions = t6, upper_case_conversions = t7\<rparr>" "le = l6" "ue = u7"
    by (simp_all add: extraction_pipeline_def after_call_def)
  then show ?thesis
    using s1 u1 s2 s3 s4 s5 r5 s6 s7 by simp
qed

lemma pipeline_removed:
  assumes "extraction_pipeline lower upper = Inr (t, le, ue)"
  shows "removed lower (lower_cover t) le" and "removed upper (upper_cover t) ue"
    and "\<exists>l5. removed lower (range_domain (character_case_ranges t) @
                 pair_domain (character_pair_ranges t) @
                 map fst (pair_entries (character_pairs t)) @
                 range_domain (lower_case_ranges t)) l5 \<and>
              map_of le = without_arity {1, 2, 3} l5"
    and "\<exists>u4. removed upper (range_codomain (character_case_ranges t) @
                 pair_codomain (character_pair_ranges t) @
                 map snd (pair_entries (character_pairs t)) @
                 special_domain (upper_case_special_ranges t)) u4 \<and>
              map_of ue = without_arity {1, 2, 3} u4"
proof -
  from extraction_pipeline_stages[OF assms] obtain l1 u1 l2 u2 l3 u3 u4 l5 where
    s1: "extract_ranges lower (Some upper) = Inr (character_case_ranges t, l1, Some u1)" and
    s2: "extract_character_pair_ranges l1 u1 = Inr (character_pair_ranges t, l2, u2)" and
    s3: "extract_character_pairs l2 u2 = Inr (character_pairs t, l3, u3)" and
    s4: "extract_special_ranges u3 = Inr (upper_case_special_ranges t, u4)" and
    s5: "extract_ranges l3 None = Inr (lower_case_ranges t, l5, None)" and
    s6: "extract_conversions l5 = Inr (lower_case_conversions t, le)" and
    s7: "extract_conversions u4 = Inr (upper_case_conversions t, ue)"
    by blast
  obtain rs1 ls1 where t1: "character_case_ranges t = (rs1, ls1)"
    by (cases "character_case_ranges t")
  obtain sps ls2 where t2: "character_pair_ranges t = (sps, ls2)"
    by (cases "character_pair_ranges t")
  obtain rs5 ls5 where t5: "lower_case_ranges t = (rs5, ls5)"
    by (cases "lower_case_ranges t")
  have a1: "removed lower (range_domain (character_case_ranges t)) l1"
    using extract_ranges_removed(1)[OF s1[unfolded t1]] t1 by simp
  have b1: "removed upper (range_codomain (character_case_ranges t)) u1"
    using extract_ranges_removed(3)[OF s1[unfolded t1] refl] t1 by simp
  have a2: "removed l1 (pair_domain (character_pair_ranges t)) l2"
    using extract_pair_ranges_removed(1)[OF s2[unfolded t2]] t2 by simp
  have b2: "removed u1 (pair_codomain (character_pair_ranges t)) u2"
    using extract_pair_ranges_removed(2)[OF s2[unfolded t2]] t2 by simp
  have a3: "removed l2 (map fst (pair_entries (character_pairs t))) l3"
    by (rule extract_character_pairs_result(1)[OF s3])
  have b3: "removed u2 (map snd (pair_entries (character_pairs t))) u3"
    by (rule extract_character_pairs_result(2)[OF s3])
  have b4: "removed u3 (special_domain (upper_case_special_ranges t)) u4"
    by (rule extract_special_ranges_removed[OF s4])
  have a5: "removed l3 (range_domain (lower_case_ranges t)) l5"
    using extract_ranges_removed(1)[OF s5[unfolded t5]] t5 by simp
  have a6: "removed l5 (conversions_domain (lower_case_conversions t)) le"
    by (rule extract_conversions_removed(1)[OF s6])
  have b7: "removed u4 (conversions_domain (upper_case_conversions t)) ue"
    by (rule extract_conversions_removed(1)[OF s7])
  have la: "removed lower (range_domain (character_case_ranges t) @
                 pair_domain (character_pair_ranges t) @
                 map fst (pair_entries (character_pairs t)) @
                 range_domain (lower_case_ranges t)) l5"
    using removed_trans[OF a1 removed_trans[OF a2 removed_trans[OF a3 a5]]] by simp
  have ua: "removed upper (range_codomain (character_case_ranges t) @
                 pair_codomain (character_pair_ranges t) @
                 map snd (pair_entries (character_pairs t)) @
                 special_domain (upper_case_special_ranges t)) u4"
    using removed_trans[OF b1 removed_trans[OF b2 removed_trans[OF b3 b4]]] by simp
  show "removed lower (lower_cover t) le"
    using removed_trans[OF la a6] by (simp add: lower_cover_def)
  show "removed upper (upper_cover t) ue"
    using removed_trans[OF ua b7] by (simp add: upper_cover_def)
  show "\<exists>l5. removed lower (range_domain (character_case_ranges t) @
                 pair_domain (character_pair_ranges t) @
                 map fst (pair_entries (character_pairs t)) @
                 range_domain (lower_case_ranges t)) l5 \<and>
              map_of le = without_arity {1, 2, 3} l5"
    using la extract_conversions_removed(2)[OF s6] by blast
  show "\<exists>u4. removed upper (range_codomain (character_case_ranges t) @
                 pair_codomain (character_pair_ranges t) @
                 map snd (pair_entries (character_pairs t)) @
                 special_domain (upper_case_special_ranges t)) u4 \<and>
              map_of ue = without_arity {1, 2, 3} u4"
    using ua extract_conversions_removed(2)[OF s7] by blast
qed

lemma residual_empty:
  assumes "well_formed d" "removed d ks d1" "map_of e = without_arity {1, 2, 3} d1"
  shows "e = []"
proof -
  have "map_of e k = None" for k
  proof (cases "map_of d1 k")
    case None
    then show ?thesis using assms(3) by (simp add: without_arity_def)
  next
    case (Some v)
    from removed_lookup[OF assms(2) Some] well_formed_lookup[OF assms(1)]
    have "length v \<in> {1, 2, 3}" by blast
    then show ?thesis using assms(3) Some by (simp add: without_arity_def)
  qed
  then have "map_of e = Map.empty" by (simp add: fun_eq_iff)
  then show ?thesis by (simp add: map_of_eq_empty_iff)
qed

lemma pipeline_ends_empty:
  assumes "extraction_pipeline lower upper = Inr (t, le, ue)"
    and "well_formed lower" "well_formed upper"
  shows "le = []" and "ue = []"
proof -
  from pipeline_removed(3)[OF assms(1)] obtain l5 where
    l5: "removed lower (range_domain (character_case_ranges t) @
                 pair_domain (character_pair_ranges t) @
                 map fst (pair_entries (character_pairs t)) @
                 range_domain (lower_case_ranges t)) l5"
        "map_of le = without_arity {1, 2, 3} l5"
    by blast
  show "le = []" by (rule residual_empty[OF assms(2) l5])
  from pipeline_removed(4)[OF assms(1)] obtain u4 where
    u4: "removed upper (range_codomain (character_case_ranges t) @
                 pair_codomain (character_pair_ranges t) @
                 map snd (pair_entries (character_pairs t)) @
                 special_domain (upper_case_special_ranges t)) u4"
        "map_of ue = without_arity {1, 2, 3} u4"
    by blast
  show "ue = []" by (rule residual_empty[OF assms(3) u4])
qed

lemma round_trip_maps_to: "round_trip lc rc c m \<longleftrightarrow> maps_to lc (Some rc) c m"
  by (auto simp: round_trip_def maps_to_def is_bidirectional_conversion_True_iff
      bidirectional_iff)

lemma in_py_range: "j \<in> set (py_range n) \<longleftrightarrow> 0 \<le> j \<and> j < n"
proof
  assume "j \<in> set (py_range n)"
  then show "0 \<le> j \<and> j < n" by (auto simp: py_range_def)
next
  assume a: "0 \<le> j \<and> j < n"
  then have "nat j \<in> set [0..<nat n]" by simp
  then have "int (nat j) \<in> int ` set [0..<nat n]" by (rule imageI)
  then show "j \<in> set (py_range n)" using a by (simp add: py_range_def)
qed

lemma range_entries_sound:
  assumes run: "extract_ranges lc rc = Inr ((rs, ls), lc', rc')"
    and e: "(c, m) \<in> set (range_entries (rs, ls))"
  shows "maps_to lc rc c m"
proof -
  from e obtain i j where ij: "i < length ls" "j \<in> set (py_range (ls ! i))"
      "c = rs ! (2 * i) + j" "m = rs ! (2 * i + 1) + j"
    by (auto simp: range_entries_def)
  from ij(2) have j: "0 \<le> j" "j < ls ! i" by (simp_all add: in_py_range)
  from extract_ranges_inv(2)[OF run range_triples_nth[OF ij(1)]] j ij(3,4)
  show ?thesis by blast
qed

lemma covered_in_range_domain:
  assumes "(s, m, n) \<in> set (range_triples rs ls)" "s \<le> c" "c < s + n"
  shows "c \<in> set (range_domain (rs, ls))"
proof -
  from range_triples_elem[OF assms(1)] obtain i where
    i: "i < length ls" "s = rs ! (2 * i)" "n = ls ! i" by blast
  have "c - s \<in> set (py_range (ls ! i))"
    using assms(2,3) i(3) by (simp add: in_py_range)
  then have "rs ! (2 * i) + (c - s) \<in> (\<lambda>j. rs ! (2 * i) + j) ` set (py_range (ls ! i))"
    by (rule imageI)
  then show ?thesis
    using i(1,2) by (fastforce simp: range_domain_def)
qed

lemma stage1_no_adjacent:
  assumes run: "extract_ranges lc (Some rc) = Inr ((rs, ls), l1, Some u1)"
  shows "\<not> adjacent l1 (Some u1) c"
proof
  assume a: "adjacent l1 (Some u1) c"
  then obtain pm where pm: "maps_to l1 (Some u1) (c - 1) pm" "maps_to l1 (Some u1) c (pm + 1)"
    by (auto simp: adjacent_iff)
  have rl: "removed lc (range_domain (rs, ls)) l1"
    by (rule extract_ranges_removed(1)[OF run])
  from extract_ranges_removed(3)[OF run refl] have
    ru: "removed rc (range_codomain (rs, ls)) u1" by simp
  from maps_to_removed[OF rl ru pm(1)] maps_to_removed[OF rl ru pm(2)]
  have "adjacent lc (Some rc) c" unfolding adjacent_iff by blast
  from extract_ranges_inv(3)[OF run this] obtain s m n where
    t: "(s, m, n) \<in> set (range_triples rs ls)" "s < c" "c < s + n" by blast
  then have "c \<in> set (range_domain (rs, ls))"
    using covered_in_range_domain[of s m n rs ls c] by simp
  with rl have "map_of l1 c = None" by (simp add: removed_def)
  with pm(2) show False by (simp add: maps_to_def)
qed

lemma pair_range_entries_sound:
  assumes run: "extract_character_pair_ranges lc rc = Inr ((sps, ls), lc', rc')"
    and noadj: "\<And>c. \<not> adjacent lc (Some rc) c"
    and e: "(c, m) \<in> set (pair_range_entries (sps, ls))"
  shows "maps_to lc (Some rc) c m"
proof -
  from e obtain i j where ij: "i < length sps" "j \<in> set (py_range_step (ls ! i) 2)"
      "c = sps ! i + j" "m = sps ! i + 1 + j"
    by (auto simp: pair_range_entries_def)
  from extract_pair_ranges_sound[OF run noadj ij(1,2)]
  have "maps_to lc (Some rc) (sps ! i + j) (sps ! i + j + 1)"
    by (simp add: swap_member_def)
  then show ?thesis using ij(3,4) by (simp add: add.commute add.left_commute)
qed

lemma bidirectional_tiers_round_trip:
  assumes "extraction_pipeline lower upper = Inr (t, le, ue)"
  shows "\<exists>l1 u1 l2 u2 l3 u3.
           extract_ranges lower (Some upper) = Inr (character_case_ranges t, l1, Some u1) \<and>
           extract_character_pair_ranges l1 u1 = Inr (character_pair_ranges t, l2, u2) \<and>
           extract_character_pairs l2 u2 = Inr (character_pairs t, l3, u3) \<and>
           (\<forall>c m. (c, m) \<in> set (range_entries (character_case_ranges t))
                    \<longrightarrow> maps_to lower (Some upper) c m) \<and>
           (\<forall>c m. (c, m) \<in> set (pair_range_entries (character_pair_ranges t))
                    \<longrightarrow> maps_to l1 (Some u1) c m \<and> maps_to lower (Some upper) c m) \<and>
           (\<forall>c m. (c, m) \<in> set (pair_entries (character_pairs t))
                    \<longrightarrow> maps_to l2 (Some u2) c m \<and> maps_to lower (Some upper) c m)"
proof -
  from extraction_pipeline_stages[OF assms] obtain l1 u1 l2 u2 l3 u3 where
    s1: "extract_ranges lower (Some upper) = Inr (character_case_ranges t, l1, Some u1)" and
    s2: "extract_character_pair_ranges l1 u1 = Inr (character_pair_ranges t, l2, u2)" and
    s3: "extract_character_pairs l2 u2 = Inr (character_pairs t, l3, u3)"
    by blast
  obtain rs1 ls1 where t1: "character_case_ranges t = (rs1, ls1)"
    by (cases "character_case_ranges t")
  obtain sps ls2 where t2: "character_pair_ranges t = (sps, ls2)"
    by (cases "character_pair_ranges t")
  note s1' = s1[unfolded t1] and s2' = s2[unfolded t2]
  have a1: "removed lower (range_domain (rs1, ls1)) l1"
    by (rule extract_ranges_removed(1)[OF s1'])
  from extract_ranges_removed(3)[OF s1' refl] have
    b1: "removed upper (range_codomain (rs1, ls1)) u1" by simp
  have a2: "removed l1 (pair_domain (sps, ls2)) l2"
    by (rule extract_pair_ranges_removed(1)[OF s2'])
  have b2: "removed u1 (pair_codomain (sps, ls2)) u2"
    by (rule extract_pair_ranges_removed(2)[OF s2'])
  have noadj: "\<And>c. \<not> adjacent l1 (Some u1) c"
    by (rule stage1_no_adjacent[OF s1'])
  have r1: "maps_to lower (Some upper) c m"
    if "(c, m) \<in> set (range_entries (character_case_ranges t))" for c m
    using range_entries_sound[OF s1'] that t1 by simp
  have r2: "maps_to l1 (Some u1) c m \<and> maps_to lower (Some upper) c m"
    if "(c, m) \<in> set (pair_range_entries (character_pair_ranges t))" for c m
  proof -
    have "maps_to l1 (Some u1) c m"
      using pair_range_entries_sound[OF s2' noadj] that t2 by simp
    then show ?thesis using maps_to_removed[OF a1 b1] by blast
  qed
  have r3: "maps_to l2 (Some u2) c m \<and> maps_to lower (Some upper) c m"
    if "(c, m) \<in> set (pair_entries (character_pairs t))" for c m
  proof -
    have m2: "maps_to l2 (Some u2) c m"
      by (rule extract_character_pairs_result(3)[OF s3 that])
    from maps_to_removed[OF a2 b2 m2] have "maps_to l1 (Some u1) c m" .
    from maps_to_removed[OF a1 b1 this] m2 show ?thesis by simp
  qed
  show ?thesis using s1 s2 s3 r1 r2 r3 by blast
qed

lemma sample_run: "extraction_pipeline sample_lower sample_upper = Inr (sample_tables, [], [])"
  by code_simp

lemma sample_well_formed: "well_formed sample_lower" "well_formed sample_upper"
  by (simp_all add: well_formed_def sample_lower_def sample_upper_def)

section \<open>Independence of the insertion order\<close>

lemma same_dict_refl: "same_dict a a"
  by (simp add: same_dict_def)

lemma same_dict_reads:
  assumes "same_dict a b"
  shows "dict_get a = dict_get b" "dict_contains a = dict_contains b"
    "sorted_keys a = sorted_keys b"
proof -
  from assms have m: "map_of a = map_of b" by (simp add: same_dict_def)
  show "dict_get a = dict_get b" by (simp add: fun_eq_iff dict_get_def dict_contains_def m)
  show "dict_contains a = dict_contains b" by (simp add: fun_eq_iff dict_contains_def m)
  show "sorted_keys a = sorted_keys b" by (simp only: sorted_keys_eq m)
qed

lemma same_dict_del:
  assumes "same_dict a b"
  shows "rel_sum (=) same_dict (dict_del a k) (dict_del b k)"
  using assms by (simp add: same_dict_def dict_del_def dict_contains_def delete_conv')

lemma same_dict_empty: "same_dict a b \<Longrightarrow> a = [] \<longleftrightarrow> b = []"
  by (metis map_of_eq_empty_iff same_dict_def)

lemma rel_sum_bind:
  assumes "rel_sum (=) R x y"
    and "\<And>a b. R a b \<Longrightarrow> rel_sum (=) S (f a) (g b)"
  shows "rel_sum (=) S (case x of Inl e \<Rightarrow> Inl e | Inr a \<Rightarrow> f a)
                       (case y of Inl e \<Rightarrow> Inl e | Inr b \<Rightarrow> g b)"
  using assms by (cases x; cases y) auto

lemma rel_sum_eq_bind:
  assumes "\<And>a. rel_sum (=) S (f a) (g a)"
  shows "rel_sum (=) S (case x of Inl e \<Rightarrow> Inl e | Inr a \<Rightarrow> f a)
                       (case x of Inl e \<Rightarrow> Inl e | Inr b \<Rightarrow> g b)"
  using assms by (cases x) auto

lemma for_each_rel:
  assumes "R s s'"
    and "\<And>s s' x. R s s' \<Longrightarrow> rel_sum (=) R (body s x) (body' s' x)"
  shows "rel_sum (=) R (for_each body xs s) (for_each body' xs s')"
  using assms(1)
proof (induction xs arbitrary: s s')
  case Nil
  then show ?case by simp
next
  case (Cons x xs)
  show ?case
    unfolding for_each.simps
    by (rule rel_sum_bind[OF assms(2)[OF Cons.prems]]) (rule Cons.IH)
qed

lemma is_bidirectional_conversion_same:
  assumes "same_dict a a'" "same_dict b b'"
  shows "is_bidirectional_conversion c a b = is_bidirectional_conversion c a' b'"
  unfolding is_bidirectional_conversion_def
  by (simp only: same_dict_reads[OF assms(1)] same_dict_reads[OF assms(2)])

lemma calculate_conversion_distance_same:
  assumes "same_dict a a'"
  shows "calculate_conversion_distance a c = calculate_conversion_distance a' c"
  unfolding calculate_conversion_distance_def
  by (simp only: same_dict_reads[OF assms])

lemma ranges_guard_same:
  assumes "same_dict a a'" "rel_option same_dict r r'"
  shows "ranges_guard a r c p = ranges_guard a' r' c p"
proof (cases r)
  case None
  with assms(2) have r': "r' = None" by simp
  show ?thesis
    unfolding ranges_guard_def None r' option.case same_dict_reads[OF assms(1)]
    by (rule refl)
next
  case (Some x)
  with assms(2) obtain x' where x': "r' = Some x'" "same_dict x x'"
    by (cases r') auto
  show ?thesis
    unfolding ranges_guard_def Some x'(1) option.case
      is_bidirectional_conversion_same[OF assms(1) x'(2)]
    by (rule refl)
qed

lemma extract_ranges_body_same:
  assumes "same_dict a a'" "rel_option same_dict r r'"
  shows "extract_ranges_body a r = extract_ranges_body a' r'"
proof (intro ext)
  fix st c
  show "extract_ranges_body a r st c = extract_ranges_body a' r' st c"
    unfolding extract_ranges_body_def
    by (simp only: ranges_guard_same[OF assms] calculate_conversion_distance_same[OF assms(1)]
        same_dict_reads[OF assms(1)])
qed

lemma remove_range_body_same:
  assumes "rel_prod same_dict (rel_option same_dict) s s'"
  shows "rel_sum (=) (rel_prod same_dict (rel_option same_dict))
           (remove_range_body rs idx s j) (remove_range_body rs idx s' j)"
proof -
  obtain a r where s: "s = (a, r)" by (cases s)
  obtain a' r' where s': "s' = (a', r')" by (cases s')
  from assms s s' have d: "same_dict a a'" and o: "rel_option same_dict r r'" by simp_all
  show ?thesis
    unfolding s s' remove_range_body.simps
  proof (rule rel_sum_eq_bind, rule rel_sum_bind[OF same_dict_del[OF d]])
    fix start b b' assume b: "same_dict b b'"
    show "rel_sum (=) (rel_prod same_dict (rel_option same_dict))
            (case r of None \<Rightarrow> Inr (b, None)
             | Some reverse \<Rightarrow>
                 (case list_get rs (idx + 1) of Inl e \<Rightarrow> Inl e
                  | Inr mapped_start \<Rightarrow>
                      (case dict_del reverse (mapped_start + j) of Inl e \<Rightarrow> Inl e
                       | Inr reverse' \<Rightarrow> Inr (b, Some reverse'))))
            (case r' of None \<Rightarrow> Inr (b', None)
             | Some reverse \<Rightarrow>
                 (case list_get rs (idx + 1) of Inl e \<Rightarrow> Inl e
                  | Inr mapped_start \<Rightarrow>
                      (case dict_del reverse (mapped_start + j) of Inl e \<Rightarrow> Inl e
                       | Inr reverse' \<Rightarrow> Inr (b', Some reverse'))))"
    proof (cases r)
      case None
      with o have "r' = None" by simp
      with None b show ?thesis by simp
    next
      case (Some x)
      with o obtain x' where x': "r' = Some x'" "same_dict x x'" by (cases r') auto
      show ?thesis
        unfolding Some x'(1) option.case
      proof (rule rel_sum_eq_bind, rule rel_sum_bind[OF same_dict_del[OF x'(2)]])
        fix m y y' assume "same_dict y y'"
        with b show "rel_sum (=) (rel_prod same_dict (rel_option same_dict))
                       (Inr (b, Some y)) (Inr (b', Some y'))" by simp
      qed
    qed
  qed
qed

lemma remove_ranges_body_same:
  assumes "rel_prod same_dict (rel_option same_dict) s s'"
  shows "rel_sum (=) (rel_prod same_dict (rel_option same_dict))
           (remove_ranges_body rs ls s idx) (remove_ranges_body rs ls s' idx)"
  unfolding remove_ranges_body_def
  by (rule rel_sum_eq_bind,
      rule for_each_rel[where R = "rel_prod same_dict (rel_option same_dict)", OF assms])
    (rule remove_range_body_same)

lemma extract_ranges_same:
  assumes "same_dict a a'" "rel_option same_dict r r'"
  shows "rel_sum (=) (rel_prod (=) (rel_prod same_dict (rel_option same_dict)))
           (extract_ranges a r) (extract_ranges a' r')"
proof -
  have init: "rel_prod same_dict (rel_option same_dict) (a, r) (a', r')"
    using assms by simp
  show ?thesis
    unfolding extract_ranges_def extract_ranges_body_same[OF assms]
      same_dict_reads(3)[OF assms(1)]
  proof (rule rel_sum_eq_bind)
    fix st
    have "rel_sum (=) (rel_prod same_dict (rel_option same_dict))
            (for_each (remove_ranges_body (ranges st) (range_lengths st))
               (py_range_step (int (length (ranges st))) 2) (a, r))
            (for_each (remove_ranges_body (ranges st) (range_lengths st))
               (py_range_step (int (length (ranges st))) 2) (a', r'))"
      by (rule for_each_rel[where R = "rel_prod same_dict (rel_option same_dict)", OF init])
        (rule remove_ranges_body_same)
    then show "rel_sum (=) (rel_prod (=) (rel_prod same_dict (rel_option same_dict)))
            (case for_each (remove_ranges_body (ranges st) (range_lengths st))
                    (py_range_step (int (length (ranges st))) 2) (a, r) of
               Inl e \<Rightarrow> Inl e
             | Inr (letter_case', reverse_letter_case') \<Rightarrow>
                 Inr ((ranges st, range_lengths st), letter_case', reverse_letter_case'))
            (case for_each (remove_ranges_body (ranges st) (range_lengths st))
                    (py_range_step (int (length (ranges st))) 2) (a', r') of
               Inl e \<Rightarrow> Inl e
             | Inr (letter_case', reverse_letter_case') \<Rightarrow>
                 Inr ((ranges st, range_lengths st), letter_case', reverse_letter_case'))"
      by (rule rel_sum_bind) auto
  qed
qed

lemma rel_sum_case_bool:
  assumes "rel_sum E S x x'" "rel_sum E S y y'"
  shows "rel_sum E S (case b of True \<Rightarrow> x | False \<Rightarrow> y) (case b of True \<Rightarrow> x' | False \<Rightarrow> y')"
  using assms by (cases b) simp_all

lemma rel_sum_if:
  assumes "rel_sum E S x x'" "rel_sum E S y y'"
  shows "rel_sum E S (if b then x else y) (if b then x' else y')"
  using assms by simp

lemma pair_ranges_body_same:
  assumes "same_dict a a'" "same_dict b b'"
  shows "pair_ranges_body a b = pair_ranges_body a' b'"
proof (intro ext)
  fix st c
  show "pair_ranges_body a b st c = pair_ranges_body a' b' st c"
    unfolding pair_ranges_body_def is_bidirectional_conversion_same[OF assms]
      same_dict_reads[OF assms(1)]
    by (rule refl)
qed

lemma remove_pair_body_same:
  assumes "rel_prod same_dict same_dict s s'"
  shows "rel_sum (=) (rel_prod same_dict same_dict)
           (remove_pair_body c s j) (remove_pair_body c s' j)"
proof -
  obtain a b where s: "s = (a, b)" by (cases s)
  obtain a' b' where s': "s' = (a', b')" by (cases s')
  from assms s s' have d: "same_dict a a'" "same_dict b b'" by simp_all
  show ?thesis
    unfolding s s' remove_pair_body.simps
    by (intro rel_sum_bind[OF same_dict_del[OF d(1)]] rel_sum_bind[OF same_dict_del[OF d(2)]])
      simp
qed

lemma remove_pair_ranges_body_same:
  assumes "rel_prod same_dict same_dict s s'"
  shows "rel_sum (=) (rel_prod same_dict same_dict)
           (remove_pair_ranges_body sps ls s idx) (remove_pair_ranges_body sps ls s' idx)"
  unfolding remove_pair_ranges_body_def
  by (rule rel_sum_eq_bind, rule rel_sum_eq_bind,
      rule for_each_rel[where R = "rel_prod same_dict same_dict", OF assms])
    (rule remove_pair_body_same)

lemma extract_character_pair_ranges_same:
  assumes "same_dict a a'" "same_dict b b'"
  shows "rel_sum (=) (rel_prod (=) (rel_prod same_dict same_dict))
           (extract_character_pair_ranges a b) (extract_character_pair_ranges a' b')"
proof -
  have init: "rel_prod same_dict same_dict (a, b) (a', b')"
    using assms by simp
  show ?thesis
    unfolding extract_character_pair_ranges_def pair_ranges_body_same[OF assms]
      same_dict_reads(3)[OF assms(1)]
    apply (rule rel_sum_eq_bind)
    apply (rule rel_sum_bind[where R = "rel_prod same_dict same_dict"])
     apply (rule for_each_rel[where R = "rel_prod same_dict same_dict", OF init])
     apply (rule remove_pair_ranges_body_same, assumption)
    apply auto
    done
qed

lemma character_pairs_body_same:
  assumes "rel_prod (=) (rel_prod same_dict same_dict) s s'"
  shows "rel_sum (=) (rel_prod (=) (rel_prod same_dict same_dict))
           (character_pairs_body s c) (character_pairs_body s' c)"
proof -
  obtain ps a b where s: "s = (ps, a, b)" by (cases s)
  obtain ps' a' b' where s': "s' = (ps', a', b')" by (cases s')
  from assms s s' have p: "ps' = ps" and d: "same_dict a a'" "same_dict b b'" by simp_all
  show ?thesis
    unfolding s s' p character_pairs_body.simps is_bidirectional_conversion_same[OF d]
      same_dict_reads[OF d(1)]
    apply (rule rel_sum_eq_bind)
    apply (rule rel_sum_case_bool)
     apply (rule rel_sum_eq_bind)
     apply (rule rel_sum_eq_bind)
     apply (rule rel_sum_bind[OF same_dict_del[OF d(1)]])
     apply (rule rel_sum_bind[OF same_dict_del[OF d(2)]])
     apply simp
    apply (simp add: d)
    done
qed

lemma extract_character_pairs_same:
  assumes "same_dict a a'" "same_dict b b'"
  shows "rel_sum (=) (rel_prod (=) (rel_prod same_dict same_dict))
           (extract_character_pairs a b) (extract_character_pairs a' b')"
proof -
  have init: "rel_prod (=) (rel_prod same_dict same_dict) ([], a, b) ([], a', b')"
    using assms by simp
  show ?thesis
    unfolding extract_character_pairs_def same_dict_reads(3)[OF assms(1)]
    by (rule for_each_rel[where R = "rel_prod (=) (rel_prod same_dict same_dict)", OF init])
      (rule character_pairs_body_same)
qed

lemma special_ranges_body_same:
  assumes "same_dict a a'"
  shows "special_ranges_body a = special_ranges_body a'"
proof (intro ext)
  fix st c
  show "special_ranges_body a st c = special_ranges_body a' st c"
    unfolding special_ranges_body_def same_dict_reads[OF assms]
    by (rule refl)
qed

lemma remove_special_body_same:
  assumes "same_dict s s'"
  shows "rel_sum (=) same_dict (remove_special_body srs idx s j) (remove_special_body srs idx s' j)"
  unfolding remove_special_body_def
  by (rule rel_sum_eq_bind) (rule same_dict_del[OF assms])

lemma remove_special_ranges_body_same:
  assumes "same_dict s s'"
  shows "rel_sum (=) same_dict
           (remove_special_ranges_body srs ls s idx) (remove_special_ranges_body srs ls s' idx)"
  unfolding remove_special_ranges_body_def
  by (rule rel_sum_eq_bind, rule rel_sum_eq_bind,
      rule for_each_rel[where R = same_dict, OF assms])
    (rule remove_special_body_same)

lemma extract_special_ranges_same:
  assumes "same_dict a a'"
  shows "rel_sum (=) (rel_prod (=) same_dict)
           (extract_special_ranges a) (extract_special_ranges a')"
  unfolding extract_special_ranges_def special_ranges_body_same[OF assms]
    same_dict_reads(3)[OF assms]
  apply (rule rel_sum_eq_bind)
  apply (rule rel_sum_bind[where R = same_dict])
   apply (rule for_each_rel[where R = same_dict, OF assms])
   apply (rule remove_special_ranges_body_same, assumption)
  apply simp
  done

lemma conversions_body_same:
  assumes "rel_prod (=) same_dict s s'"
  shows "rel_sum (=) (rel_prod (=) same_dict) (conversions_body n s c) (conversions_body n s' c)"
proof -
  obtain u a where s: "s = (u, a)" by (cases s)
  obtain u' a' where s': "s' = (u', a')" by (cases s')
  from assms s s' have p: "u' = u" and d: "same_dict a a'" by simp_all
  show ?thesis
    unfolding s s' p conversions_body.simps same_dict_reads[OF d]
    apply (rule rel_sum_eq_bind)
    apply (rule rel_sum_if)
     apply (simp add: d)
    apply (rule rel_sum_bind[OF same_dict_del[OF d]])
    apply simp
    done
qed

lemma conversions_loop_same:
  assumes "same_dict a a'"
  shows "rel_sum (=) (rel_prod (=) same_dict) (conversions_loop n a) (conversions_loop n a')"
proof -
  have init: "rel_prod (=) same_dict ([], a) ([], a')"
    using assms by simp
  show ?thesis
    unfolding conversions_loop_def same_dict_reads(3)[OF assms]
    by (rule for_each_rel[where R = "rel_prod (=) same_dict", OF init])
      (rule conversions_body_same)
qed

lemma extract_conversions_same:
  assumes "same_dict a a'"
  shows "rel_sum (=) (rel_prod (=) same_dict) (extract_conversions a) (extract_conversions a')"
  unfolding extract_conversions_def
  apply (rule rel_sum_bind[OF conversions_loop_same[OF assms]])
  apply clarsimp
  apply (rule rel_sum_bind[OF conversions_loop_same])
   apply assumption
  apply clarsimp
  apply (rule rel_sum_bind[OF conversions_loop_same])
   apply assumption
  apply clarsimp
  done

lemma after_call_same:
  assumes "same_dict u u'" "rel_option same_dict r r'"
  shows "same_dict (after_call u r) (after_call u' r')"
  using assms by (cases r; cases r') (simp_all add: after_call_def)

lemma extraction_pipeline_same:
  assumes lo: "same_dict lo lo'" and up: "same_dict up up'"
  shows "rel_sum (=) (rel_prod (=) (rel_prod same_dict same_dict))
           (extraction_pipeline lo up) (extraction_pipeline lo' up')"
  unfolding extraction_pipeline_def
  apply (rule rel_sum_bind[OF extract_ranges_same[OF lo, of "Some up" "Some up'"]])
   apply (simp add: up)
  apply clarsimp
  apply (rule rel_sum_bind[OF extract_character_pair_ranges_same])
    apply assumption
   apply (rule after_call_same[OF up], assumption)
  apply clarsimp
  apply (rule rel_sum_bind[OF extract_character_pairs_same])
    apply assumption
   apply assumption
  apply clarsimp
  apply (rule rel_sum_bind[OF extract_special_ranges_same])
   apply assumption
  apply clarsimp
  apply (rule rel_sum_bind[OF extract_ranges_same[where r = None and r' = None]])
    apply assumption
   apply simp
  apply clarsimp
  apply (rule rel_sum_bind[OF extract_conversions_same])
   apply assumption
  apply clarsimp
  apply (rule rel_sum_bind[OF extract_conversions_same])
   apply (rule after_call_same, assumption, assumption)
  apply clarsimp
  done

lemma ConversionTables_init_same:
  assumes "same_dict lo lo'" "same_dict up up'"
  shows "ConversionTables_init lo up = ConversionTables_init lo' up'"
proof -
  from extraction_pipeline_same[OF assms]
  show ?thesis
    unfolding ConversionTables_init_def
    by (cases "extraction_pipeline lo up"; cases "extraction_pipeline lo' up'")
      (auto dest: same_dict_empty)
qed

lemma sample_reordered:
  "map_of sample_lower = map_of (rev sample_lower)"
  "map_of sample_upper = map_of (rev sample_upper)"
  by (simp_all add: sample_lower_def sample_upper_def fun_eq_iff)

lemma sample_init: "ConversionTables_init sample_lower sample_upper = Inr (sample_tables, [])"
  by (simp add: ConversionTables_init_def sample_run)

section \<open>The conversion distance\<close>



section \<open>extract_conversions\<close>

text \<open>
  C10: \<open>extract_conversions\<close> always returns; its flat table is the arity-1 entries, then
  the arity-2 entries, then the arity-3 entries, each block in ascending order of the code
  point, its three counters are the sizes of the blocks, so that the length of the table
  is \<open>2 * n1 + 3 * n2 + 4 * n3\<close>; and the dictionary it leaves holds exactly the entries
  whose output has another length, unchanged.
\<close>

theorem extract_conversions_shape:
  "\<exists>flat n1 n2 n3 d'.
     extract_conversions d = Inr ((flat, [n1, n2, n3]), d') \<and>
     int (length flat) = 2 * n1 + 3 * n2 + 4 * n3 \<and>
     flat = flat_bucket (conversion_bucket 1 d) @ flat_bucket (conversion_bucket 2 d) @
            flat_bucket (conversion_bucket 3 d) \<and>
     n1 = int (length (conversion_bucket 1 d)) \<and>
     n2 = int (length (conversion_bucket 2 d)) \<and>
     n3 = int (length (conversion_bucket 3 d)) \<and>
     sorted_wrt (<) (map fst (conversion_bucket 1 d)) \<and>
     sorted_wrt (<) (map fst (conversion_bucket 2 d)) \<and>
     sorted_wrt (<) (map fst (conversion_bucket 3 d)) \<and>
     map_of d' = without_arity {1, 2, 3} d"
  by (rule extract_conversions_result)

section \<open>Comments in the special-casing file\<close>

text \<open>
  C8, as the code has it: the loop over the fields of a record replaces every field that
  contains a \<open>#\<close> by the empty string as a whole, and leaves every other field as it is.
  The text that stands before the \<open>#\<close> in such a field is dropped with the comment.
\<close>

theorem blank_comments_fields:
  "blank_comments line =
     Inr (map (\<lambda>field. if CHR ''#'' \<in> set field then [] else field) line)"
  using blank_comments_prefix[of "length line" line] by (simp add: blank_comments_def)

text \<open>
  C8 as stated fails: a data field that carries a trailing comment contributes nothing (the
  upper-case mapping of U+00DF becomes the empty string), while the same record with the
  comment in a field of its own contributes \<open>0053 0053\<close>.
\<close>

theorem special_casing_data_field_with_comment:
  "read_case_mappings []
     [[''00DF'', '' 00DF'', '' 0053 0073'', '' 0053 0053 # SHARP S'', '''']]
     = Inr ([(223, [223])], [(223, [])]) \<and>
   read_case_mappings []
     [[''00DF'', '' 00DF'', '' 0053 0073'', '' 0053 0053'', '' # SHARP S'']]
     = Inr ([(223, [223])], [(223, [83, 83])])"
  by code_simp

section \<open>Special ranges on a stale flag\<close>

text \<open>
  C2 on a concrete dictionary. The run \<open>0x200, 0x201\<close> opens a range; \<open>0x202\<close> has another
  second code point, which leaves the loop body by \<open>continue\<close> without clearing
  \<open>in_range\<close>; the matches at \<open>0x203\<close> and \<open>0x204\<close> then lengthen the range opened at
  \<open>0x200\<close>. The emitted range \<open>(0x200, 0x300, 0x399)\<close> of length 3 covers \<open>0x202\<close>, which
  maps to \<open>(0x400, 0x3A9)\<close> and not to \<open>(0x302, 0x399)\<close>. When the first match is reached
  before any assignment to \<open>in_range\<close>, the function raises UnboundLocalError.
\<close>

theorem extract_special_ranges_stale_flag:
  "extract_special_ranges
     [(0x200, [0x300, 0x399]), (0x201, [0x301, 0x399]), (0x202, [0x400, 0x3A9]),
      (0x203, [0x401, 0x3A9]), (0x204, [0x402, 0x3A9])]
     = Inr (([0x200, 0x300, 0x399], [3]), [(0x203, [0x401, 0x3A9]), (0x204, [0x402, 0x3A9])]) \<and>
   extract_special_ranges
     [(0x200, [0x41]), (0x201, [0x301, 0x399]), (0x202, [0x302, 0x399])]
     = Inl UnboundLocalError"
  by code_simp

section \<open>Uniform ranges\<close>

text \<open>
  C5: whenever \<open>extract_ranges\<close> returns, in either mode, the two tables have matching
  sizes, every emitted range (start, mapped start, length) has length at least 2, and for
  every \<open>j\<close> in \<open>[0, length)\<close> the dictionary given to the function sends \<open>start + j\<close> to
  the single code point \<open>mapped start + j\<close> (and, in bidirectional mode, the reverse
  dictionary sends that code point back). A code point with no qualifying neighbour on
  either side is covered by no emitted range.
\<close>

theorem extract_ranges_sound:
  assumes "extract_ranges letter_case reverse_letter_case = Inr ((rs, ls), lc', rc')"
  shows "length rs = 2 * length ls \<and>
         (\<forall>i < length ls. 2 \<le> ls ! i \<and>
            (\<forall>j. 0 \<le> j \<and> j < ls ! i \<longrightarrow>
               map_of letter_case (rs ! (2 * i) + j) = Some [rs ! (2 * i + 1) + j] \<and>
               (\<forall>r. reverse_letter_case = Some r \<longrightarrow>
                  map_of r (rs ! (2 * i + 1) + j) = Some [rs ! (2 * i) + j]))) \<and>
         (\<forall>c. \<not> adjacent letter_case reverse_letter_case c \<and>
               \<not> adjacent letter_case reverse_letter_case (c + 1) \<longrightarrow>
               \<not> (\<exists>i < length ls. rs ! (2 * i) \<le> c \<and> c < rs ! (2 * i) + ls ! i))"
proof (intro conjI allI impI)
  note inv = extract_ranges_inv[OF assms]
  show "length rs = 2 * length ls" by (rule inv(1))
  {
    fix i assume i: "i < length ls"
    from inv(2)[OF range_triples_nth[OF i]] show "2 \<le> ls ! i" by blast
    fix j assume j: "0 \<le> j \<and> j < ls ! i"
    with inv(2)[OF range_triples_nth[OF i]] have
      m: "maps_to letter_case reverse_letter_case (rs ! (2 * i) + j) (rs ! (2 * i + 1) + j)"
      by blast
    then show "map_of letter_case (rs ! (2 * i) + j) = Some [rs ! (2 * i + 1) + j]"
      by (simp add: maps_to_def)
    fix r assume "reverse_letter_case = Some r"
    with m show "map_of r (rs ! (2 * i + 1) + j) = Some [rs ! (2 * i) + j]"
      by (simp add: maps_to_def)
  }
  fix c
  assume lone: "\<not> adjacent letter_case reverse_letter_case c \<and>
               \<not> adjacent letter_case reverse_letter_case (c + 1)"
  show "\<not> (\<exists>i < length ls. rs ! (2 * i) \<le> c \<and> c < rs ! (2 * i) + ls ! i)"
  proof
    assume "\<exists>i < length ls. rs ! (2 * i) \<le> c \<and> c < rs ! (2 * i) + ls ! i"
    then obtain i where i: "i < length ls" "rs ! (2 * i) \<le> c" "c < rs ! (2 * i) + ls ! i"
      by blast
    let ?s = "rs ! (2 * i)" and ?m = "rs ! (2 * i + 1)" and ?n = "ls ! i"
    from inv(2)[OF range_triples_nth[OF i(1)]] have n2: "2 \<le> ?n"
      and run: "\<And>j. 0 \<le> j \<Longrightarrow> j < ?n \<Longrightarrow>
                 maps_to letter_case reverse_letter_case (?s + j) (?m + j)"
      by blast+
    show False
    proof (cases "c = ?s")
      case True
      from run[of 0] run[of 1] n2 True
      have "maps_to letter_case reverse_letter_case (c + 1 - 1) ?m"
           "maps_to letter_case reverse_letter_case (c + 1) (?m + 1)"
        by simp_all
      then have "adjacent letter_case reverse_letter_case (c + 1)"
        unfolding adjacent_iff by blast
      with lone show False by simp
    next
      case False
      with i have lt: "?s < c" by simp
      from run[of "c - ?s - 1"] run[of "c - ?s"] lt i(3)
      have "maps_to letter_case reverse_letter_case (c - 1) (?m + (c - ?s - 1))"
           "maps_to letter_case reverse_letter_case c (?m + (c - ?s - 1) + 1)"
        by (simp_all add: algebra_simps)
      then have "adjacent letter_case reverse_letter_case c"
        unfolding adjacent_iff by blast
      with lone show False by simp
    qed
  qed
qed

theorem extract_ranges_sound_witness:
  "extract_ranges [(0x391, [0x3B1]), (0x392, [0x3B2]), (0x393, [0x3B3]), (0x395, [0x3B7])]
     (Some [(0x3B1, [0x391]), (0x3B2, [0x392]), (0x3B3, [0x393]), (0x3B7, [0x395])])
     = Inr (([0x391, 0x3B1], [3]), [(0x395, [0x3B7])], Some [(0x3B7, [0x395])]) \<and>
   (2::int) \<le> [3] ! 0 \<and>
   map_of ([(0x391, [0x3B1]), (0x392, [0x3B2]), (0x393, [0x3B3]), (0x395, [0x3B7])] :: dict)
     ([0x391, 0x3B1] ! (2 * 0) + 2) = Some [[0x391, 0x3B1] ! (2 * 0 + 1) + 2] \<and>
   \<not> (\<exists>i < length [3::int]. [0x391, 0x3B1] ! (2 * i) \<le> (0x395::int) \<and>
        (0x395::int) < [0x391, 0x3B1] ! (2 * i) + [3] ! i)"
proof -
  let ?L = "[(0x391, [0x3B1]), (0x392, [0x3B2]), (0x393, [0x3B3]), (0x395, [0x3B7::int])]
             :: (int \<times> int list) list"
  let ?R = "Some [(0x3B1, [0x391]), (0x3B2, [0x392]), (0x3B3, [0x393]), (0x3B7, [0x395::int])]
             :: (int \<times> int list) list option"
  have run: "extract_ranges ?L ?R
     = Inr (([0x391, 0x3B1], [3]), [(0x395, [0x3B7])], Some [(0x3B7, [0x395])])"
    by code_simp
  have lone: "\<not> adjacent ?L ?R 0x395 \<and> \<not> adjacent ?L ?R (0x395 + 1)"
    by (simp add: adjacent_def maps_to_def)
  note th = extract_ranges_sound[OF run]
  have i0: "0 < length [3::int]" by simp
  note t0 = th[THEN conjunct2, THEN conjunct1, rule_format, OF i0]
  have a: "(2::int) \<le> [3] ! 0" by (rule t0[THEN conjunct1])
  have j2: "(0::int) \<le> 2 \<and> (2::int) < [3] ! 0" by simp
  have b: "map_of ?L ([0x391, 0x3B1] ! (2 * 0) + 2) = Some [[0x391, 0x3B1] ! (2 * 0 + 1) + 2]"
    by (rule t0[THEN conjunct2, rule_format, OF j2, THEN conjunct1])
  have c: "\<not> (\<exists>i < length [3::int]. [0x391, 0x3B1] ! (2 * i) \<le> (0x395::int) \<and>
        (0x395::int) < [0x391, 0x3B1] ! (2 * i) + [3] ! i)"
    by (rule th[THEN conjunct2, THEN conjunct2, rule_format, OF lone])
  from run a b c show ?thesis by blast
qed

section \<open>Pair ranges of a single pair\<close>




section \<open>Partition of the code points among the tiers\<close>

text \<open>
  C3: \<open>lower_cover\<close> and \<open>upper_cover\<close> list the code points that the emitted tables
  encode for the lower-case and for the upper-case dictionary, tier after tier, read off
  the tables alone. Whenever the constructor's pipeline returns its tables for
  dictionaries whose outputs have 1 to 3 code points, each list has no repetition (no
  code point is covered twice, within a tier or by two tiers) and its elements are
  exactly the keys the dictionary had at the start.
\<close>

theorem pipeline_partition:
  assumes "extraction_pipeline lower_case upper_case = Inr (t, lower_end, upper_end)"
    and "well_formed lower_case" and "well_formed upper_case"
  shows "distinct (lower_cover t) \<and> set (lower_cover t) = dom (map_of lower_case) \<and>
         distinct (upper_cover t) \<and> set (upper_cover t) = dom (map_of upper_case)"
proof -
  have le: "lower_end = []" and ue: "upper_end = []"
    using pipeline_ends_empty[OF assms] by simp_all
  have rl: "removed lower_case (lower_cover t) []"
    using pipeline_removed(1)[OF assms(1)] le by simp
  have ru: "removed upper_case (upper_cover t) []"
    using pipeline_removed(2)[OF assms(1)] ue by simp
  have "dom (map_of lower_case) - set (lower_cover t) = {}"
    using removed_dom[OF rl] by simp
  moreover have "dom (map_of upper_case) - set (upper_cover t) = {}"
    using removed_dom[OF ru] by simp
  ultimately show ?thesis
    using rl ru unfolding removed_def by blast
qed

theorem pipeline_partition_witness:
  "extraction_pipeline sample_lower sample_upper = Inr (sample_tables, [], []) \<and>
   well_formed sample_lower \<and> well_formed sample_upper \<and>
   distinct (lower_cover sample_tables) \<and>
   set (lower_cover sample_tables) = dom (map_of sample_lower) \<and>
   distinct (upper_cover sample_tables) \<and>
   set (upper_cover sample_tables) = dom (map_of sample_upper)"
  using sample_run sample_well_formed
    pipeline_partition[OF sample_run sample_well_formed]
  by blast

section \<open>The dictionaries at the end of the pipeline\<close>

text \<open>
  C4, as the code has it: when the pipeline returns for dictionaries whose outputs have
  1 to 3 code points, both dictionaries are empty at the end and the constructor returns
  the tables with no warning. For any input on which the pipeline returns, entries left in
  a dictionary never make the constructor fail: it returns the same tables, with one
  warning for each dictionary that is not empty.
\<close>

theorem pipeline_ends_and_warnings:
  assumes "extraction_pipeline lower_case upper_case = Inr (t, lower_end, upper_end)"
  shows "(well_formed lower_case \<and> well_formed upper_case \<longrightarrow>
            lower_end = [] \<and> upper_end = [] \<and>
            ConversionTables_init lower_case upper_case = Inr (t, [])) \<and>
         (\<exists>w. ConversionTables_init lower_case upper_case = Inr (t, w) \<and>
              (w = [] \<longleftrightarrow> lower_end = [] \<and> upper_end = []))"
proof (intro conjI impI)
  assume wf: "well_formed lower_case \<and> well_formed upper_case"
  then have e: "lower_end = []" "upper_end = []"
    using pipeline_ends_empty[OF assms] by simp_all
  then show "lower_end = []" "upper_end = []" by simp_all
  show "ConversionTables_init lower_case upper_case = Inr (t, [])"
    using assms e by (simp add: ConversionTables_init_def)
next
  show "\<exists>w. ConversionTables_init lower_case upper_case = Inr (t, w) \<and>
              (w = [] \<longleftrightarrow> lower_end = [] \<and> upper_end = [])"
    using assms by (simp add: ConversionTables_init_def)
qed

theorem pipeline_ends_and_warnings_witness:
  "extraction_pipeline sample_lower sample_upper = Inr (sample_tables, [], []) \<and>
   well_formed sample_lower \<and> well_formed sample_upper \<and>
   ConversionTables_init sample_lower sample_upper = Inr (sample_tables, [])"
proof -
  note th = pipeline_ends_and_warnings[OF sample_run]
  have "ConversionTables_init sample_lower sample_upper = Inr (sample_tables, [])"
    using th[THEN conjunct1, rule_format, OF conjI[OF sample_well_formed]] by blast
  then show ?thesis using sample_run sample_well_formed by blast
qed

text \<open>
  C4 as stated fails: an output of four code points and an empty output are left in the
  dictionaries, and the constructor still returns its tables; the two leftover entries
  show only as warnings.
\<close>

theorem leftover_entries_only_warn:
  "extraction_pipeline [(200, [1, 2, 3, 4])] [(300, [])]
     = Inr (\<lparr>character_case_ranges = ([], []), character_pair_ranges = ([], []),
             character_pairs = [], upper_case_special_ranges = ([], []),
             lower_case_ranges = ([], []), lower_case_conversions = ([], [0, 0, 0]),
             upper_case_conversions = ([], [0, 0, 0])\<rparr>,
            [(200, [1, 2, 3, 4])], [(300, [])]) \<and>
   ConversionTables_init [(200, [1, 2, 3, 4])] [(300, [])]
     = Inr (\<lparr>character_case_ranges = ([], []), character_pair_ranges = ([], []),
             character_pairs = [], upper_case_special_ranges = ([], []),
             lower_case_ranges = ([], []), lower_case_conversions = ([], [0, 0, 0]),
             upper_case_conversions = ([], [0, 0, 0])\<rparr>,
            [''Not all elements extracted from the lowercase table!'',
             ''Not all elements extracted from the uppercase table!''])"
  by code_simp

section \<open>Round trip of the bidirectional tiers\<close>

text \<open>
  C6: every entry \<open>c \<mapsto> m\<close> that the tables of the three bidirectional extractors
  (uniform bidirectional ranges, pair ranges, single pairs) encode satisfies the round
  trip in the dictionaries given to the constructor and in the dictionaries as they are
  when its extractor starts: \<open>c\<close> has the single output \<open>m\<close>, the reverse dictionary
  sends \<open>m\<close> back to \<open>c\<close>, and \<open>is_bidirectional_conversion\<close> returns \<open>True\<close>, which it
  does exactly under this condition.
\<close>

theorem bidirectional_claims_round_trip:
  assumes "extraction_pipeline lower_case upper_case = Inr (t, lower_end, upper_end)"
  shows "(\<forall>c m. (c, m) \<in> set (range_entries (character_case_ranges t)) \<union>
                       set (pair_range_entries (character_pair_ranges t)) \<union>
                       set (pair_entries (character_pairs t))
                 \<longrightarrow> round_trip lower_case upper_case c m) \<and>
         (\<exists>l1 u1 l2 u2 l3 u3.
            extract_ranges lower_case (Some upper_case)
              = Inr (character_case_ranges t, l1, Some u1) \<and>
            extract_character_pair_ranges l1 u1 = Inr (character_pair_ranges t, l2, u2) \<and>
            extract_character_pairs l2 u2 = Inr (character_pairs t, l3, u3) \<and>
            (\<forall>c m. (c, m) \<in> set (pair_range_entries (character_pair_ranges t))
                     \<longrightarrow> round_trip l1 u1 c m) \<and>
            (\<forall>c m. (c, m) \<in> set (pair_entries (character_pairs t))
                     \<longrightarrow> round_trip l2 u2 c m)) \<and>
         (\<forall>c lc rc. is_bidirectional_conversion c lc rc = Inr True \<longleftrightarrow>
                     (\<exists>m. map_of lc c = Some [m] \<and> map_of rc m = Some [c]))"
proof -
  from bidirectional_tiers_round_trip[OF assms] obtain l1 u1 l2 u2 l3 u3 where
    s: "extract_ranges lower_case (Some upper_case)
              = Inr (character_case_ranges t, l1, Some u1)"
       "extract_character_pair_ranges l1 u1 = Inr (character_pair_ranges t, l2, u2)"
       "extract_character_pairs l2 u2 = Inr (character_pairs t, l3, u3)" and
    r1: "\<And>c m. (c, m) \<in> set (range_entries (character_case_ranges t))
                    \<Longrightarrow> round_trip lower_case upper_case c m" and
    r2: "\<And>c m. (c, m) \<in> set (pair_range_entries (character_pair_ranges t))
                    \<Longrightarrow> round_trip l1 u1 c m \<and> round_trip lower_case upper_case c m" and
    r3: "\<And>c m. (c, m) \<in> set (pair_entries (character_pairs t))
                    \<Longrightarrow> round_trip l2 u2 c m \<and> round_trip lower_case upper_case c m"
    unfolding round_trip_maps_to by blast
  have A: "\<forall>c m. (c, m) \<in> set (range_entries (character_case_ranges t)) \<union>
                       set (pair_range_entries (character_pair_ranges t)) \<union>
                       set (pair_entries (character_pairs t))
                 \<longrightarrow> round_trip lower_case upper_case c m"
    using r1 r2 r3 by blast
  have B: "\<exists>l1 u1 l2 u2 l3 u3.
            extract_ranges lower_case (Some upper_case)
              = Inr (character_case_ranges t, l1, Some u1) \<and>
            extract_character_pair_ranges l1 u1 = Inr (character_pair_ranges t, l2, u2) \<and>
            extract_character_pairs l2 u2 = Inr (character_pairs t, l3, u3) \<and>
            (\<forall>c m. (c, m) \<in> set (pair_range_entries (character_pair_ranges t))
                     \<longrightarrow> round_trip l1 u1 c m) \<and>
            (\<forall>c m. (c, m) \<in> set (pair_entries (character_pairs t))
                     \<longrightarrow> round_trip l2 u2 c m)"
    using s r2 r3 by blast
  have C: "\<forall>c lc rc. is_bidirectional_conversion c lc rc = Inr True \<longleftrightarrow>
                     (\<exists>m. map_of lc c = Some [m] \<and> map_of rc m = Some [c])"
    by (simp add: is_bidirectional_conversion_True_iff bidirectional_iff)
  from A B C show ?thesis by blast
qed

theorem bidirectional_claims_round_trip_witness:
  "extraction_pipeline sample_lower sample_upper = Inr (sample_tables, [], []) \<and>
   round_trip sample_lower sample_upper 0x392 0x3B2 \<and>
   round_trip sample_lower sample_upper 0x100 0x101 \<and>
   round_trip sample_lower sample_upper 0x178 0xFF"
proof -
  note th = bidirectional_claims_round_trip[OF sample_run, THEN conjunct1, rule_format]
  have e1: "(0x392, 0x3B2) \<in> set (range_entries (character_case_ranges sample_tables)) \<union>
                       set (pair_range_entries (character_pair_ranges sample_tables)) \<union>
                       set (pair_entries (character_pairs sample_tables))"
    by (simp add: sample_tables_def range_entries_def py_range_def)
  have e2: "(0x100, 0x101) \<in> set (range_entries (character_case_ranges sample_tables)) \<union>
                       set (pair_range_entries (character_pair_ranges sample_tables)) \<union>
                       set (pair_entries (character_pairs sample_tables))"
    by (simp add: sample_tables_def pair_range_entries_def py_range_step_def)
  have e3: "(0x178, 0xFF) \<in> set (range_entries (character_case_ranges sample_tables)) \<union>
                       set (pair_range_entries (character_pair_ranges sample_tables)) \<union>
                       set (pair_entries (character_pairs sample_tables))"
    by (simp add: sample_tables_def pair_entries_def)
  from th[OF e1] th[OF e2] th[OF e3] sample_run show ?thesis by blast
qed

section \<open>Determinism of the pipeline\<close>

text \<open>
  C9: the constructor is a function of the two key-to-value mappings. Two pairs of
  dictionaries that hold the same entries, inserted in any order, give the same result:
  the same seven tables and the same warnings, or the same exception. Every loop of the
  extractors runs over \<open>sorted(letter_case.keys())\<close>, and every other access to a
  dictionary is a lookup, a membership test or a deletion by key.
\<close>

theorem tables_independent_of_insertion_order:
  assumes "map_of lower_case = map_of lower_case'"
    and "map_of upper_case = map_of upper_case'"
  shows "ConversionTables_init lower_case upper_case =
         ConversionTables_init lower_case' upper_case'"
  by (rule ConversionTables_init_same) (simp_all add: same_dict_def assms)

theorem tables_independent_of_insertion_order_witness:
  "map_of sample_lower = map_of (rev sample_lower) \<and>
   map_of sample_upper = map_of (rev sample_upper) \<and>
   rev sample_lower \<noteq> sample_lower \<and> rev sample_upper \<noteq> sample_upper \<and>
   ConversionTables_init sample_lower sample_upper = Inr (sample_tables, []) \<and>
   ConversionTables_init (rev sample_lower) (rev sample_upper) = Inr (sample_tables, [])"
proof -
  have ne: "rev sample_lower \<noteq> sample_lower" "rev sample_upper \<noteq> sample_upper"
    by (simp_all add: sample_lower_def sample_upper_def)
  from tables_independent_of_insertion_order[OF sample_reordered] sample_init
  have "ConversionTables_init (rev sample_lower) (rev sample_upper) = Inr (sample_tables, [])"
    by simp
  with sample_reordered sample_init ne show ?thesis by blast
qed

end
